theory Spec2Isabelle
  imports
    Main
    "HOL-Library.Char_ord"
    "HOL-Library.List_Lexorder"
    "HOL-Library.Product_Lexorder"
    "HOL-Library.AList"
    "HOL-Library.Multiset"
    "HOL-Library.Sublist"
begin

section \<open>Python strings\<close>

text \<open>
  A Python \<open>str\<close> is modelled as a \<open>string\<close> (a list of characters with code points
  below 256).  Comparison of strings is Python's: lexicographic by code point, which is the
  order of \<open>Char_ord\<close> lifted by \<open>List_Lexorder\<close>.
\<close>

text \<open>\<open>s.lstrip(c)\<close>, \<open>s.rstrip(c)\<close> and \<open>s.strip(c)\<close> for a single character \<open>c\<close>.\<close>

definition lstrip :: "char \<Rightarrow> string \<Rightarrow> string" where
  "lstrip c s = dropWhile (\<lambda>x. x = c) s"

definition rstrip :: "char \<Rightarrow> string \<Rightarrow> string" where
  "rstrip c s = rev (dropWhile (\<lambda>x. x = c) (rev s))"

definition strip :: "char \<Rightarrow> string \<Rightarrow> string" where
  "strip c s = lstrip c (rstrip c s)"

text \<open>
  \<open>s.strip()\<close> without argument removes leading and trailing whitespace; the characters
  below 256 for which \<open>str.isspace\<close> holds are 9 to 13, 28 to 32, 133 and 160.
\<close>

definition isspace :: "char \<Rightarrow> bool" where
  "isspace c = (let n = (of_char c :: nat)
                in (9 \<le> n \<and> n \<le> 13) \<or> (28 \<le> n \<and> n \<le> 32) \<or> n = 133 \<or> n = 160)"

definition strip_ws :: "string \<Rightarrow> string" where
  "strip_ws s = dropWhile isspace (rev (dropWhile isspace (rev s)))"

text \<open>
  \<open>s.split(sep)\<close> for a single character \<open>sep\<close>: never empty, \<open>"".split("/") == [""]\<close>
  (lemma \<open>split_not_Nil\<close>, so the first branch of the inner \<open>case\<close> is never taken).
\<close>

fun split :: "char \<Rightarrow> string \<Rightarrow> string list" where
  "split sep [] = [[]]"
| "split sep (c # cs) =
     (if c = sep then [] # split sep cs
      else (case split sep cs of
              [] \<Rightarrow> [[c]]
            | w # ws \<Rightarrow> (c # w) # ws))"

text \<open>\<open>sep.join(xs)\<close>.\<close>

fun join :: "string \<Rightarrow> string list \<Rightarrow> string" where
  "join sep [] = []"
| "join sep [x] = x"
| "join sep (x # y # ys) = x @ sep @ join sep (y # ys)"

section \<open>Nodes and the object store\<close>

text \<open>
  \<open>Node\<close> objects are mutable and shared by reference, so they live in a store: an
  address denotes an object, and a \<open>children\<close> dictionary maps a name to the address of
  the child.  A Python \<open>dict\<close> keeps insertion order; it is an association list with
  distinct keys, assignment being \<open>AList.update\<close> (replace in place, or append).
\<close>

type_synonym addr = nat

record Node =
  name :: string
  is_dir :: bool
  children :: "(string \<times> addr) list"

type_synonym heap = "addr \<Rightarrow> Node"

text \<open>\<open>Node(name, is_dir)\<close>: a new object at the next unused address.\<close>

definition new_Node :: "string \<Rightarrow> bool \<Rightarrow> Node" where
  "new_Node nm d = \<lparr>name = nm, is_dir = d, children = []\<rparr>"

definition add_child :: "heap \<Rightarrow> addr \<Rightarrow> addr \<Rightarrow> heap" where
  "add_child h self child_node =
     h(self := (h self)\<lparr>children := AList.update (name (h child_node)) child_node (children (h self))\<rparr>)"

definition get_child :: "heap \<Rightarrow> addr \<Rightarrow> string \<Rightarrow> addr option" where
  "get_child h self nm = map_of (children (h self)) nm"

definition has_children :: "heap \<Rightarrow> addr \<Rightarrow> bool" where
  "has_children h self = (children (h self) \<noteq> [])"

section \<open>The application state\<close>

record App =
  heap :: heap
  root_node :: addr
  cur_dir :: string

text \<open>
  Exceptions a handler can raise.  \<open>KeyError\<close> and \<open>RecursionError\<close> derive from
  \<open>Exception\<close>; \<open>SystemExit\<close> does not.
\<close>

datatype exn = KeyError string | RecursionError | SystemExit

definition is_Exception :: "exn \<Rightarrow> bool" where
  "is_Exception e = (e \<noteq> SystemExit)"

text \<open>
  \<open>str(e)\<close>.  For a \<open>KeyError\<close> it is the \<open>repr\<close> of the key, which for a key without
  quotes, backslashes and unprintable characters is the key between single quotes.  The
  text of a \<open>RecursionError\<close> depends on where the interpreter detects it; the model
  takes its shortest form.
\<close>

fun str_exn :: "exn \<Rightarrow> string" where
  "str_exn (KeyError k) = [CHR 0x27] @ k @ [CHR 0x27]"
| "str_exn RecursionError = ''maximum recursion depth exceeded''"
| "str_exn SystemExit = ''0''"

subsection \<open>\<open>_build_tree\<close>\<close>

text \<open>
  The archive is the list of its members, each a name and the value of \<open>isdir()\<close>.
  The inner loop runs over \<open>enumerate(parts)\<close>; \<open>n\<close> is \<open>len(parts)\<close>, and the pair
  \<open>(h, fresh)\<close> is the store with its next unused address.  After the insertion
  \<open>get_child\<close> finds the child (lemma \<open>add_parts_inv\<close> goes through that branch only), so
  the branch for \<open>None\<close> is never taken.
\<close>

type_synonym member = "string \<times> bool"

fun add_parts :: "bool \<Rightarrow> nat \<Rightarrow> (nat \<times> string) list \<Rightarrow> heap \<times> addr \<Rightarrow> addr \<Rightarrow> heap \<times> addr" where
  "add_parts isdir n [] st current_node = st"
| "add_parts isdir n ((idx, part) # rest) (h, fresh) current_node =
     (let d = (idx \<noteq> n - 1) \<or> isdir;
          (h', fresh') =
             (if part \<notin> fst ` set (children (h current_node))
              then (add_child (h(fresh := new_Node part d)) current_node fresh, Suc fresh)
              else (h, fresh))
      in (case get_child h' current_node part of
            None \<Rightarrow> (h', fresh')
          | Some c \<Rightarrow> add_parts isdir n rest (h', fresh') c))"

definition add_member :: "addr \<Rightarrow> heap \<times> addr \<Rightarrow> member \<Rightarrow> heap \<times> addr" where
  "add_member root st m =
     (let parts = split CHR ''/'' (strip CHR ''/'' (fst m))
      in add_parts (snd m) (length parts) (enumerate 0 parts) st root)"

definition empty_heap :: heap where
  "empty_heap = (\<lambda>_. new_Node [] False)"

definition build_tree :: "member list \<Rightarrow> heap \<times> addr" where
  "build_tree members =
     (let root = 0;
          st = (empty_heap(root := new_Node ''/'' True), Suc root)
      in (fst (foldl (add_member root) st members), root))"

definition init_App :: "member list \<Rightarrow> App" where
  "init_App members =
     (let (h, root) = build_tree members
      in \<lparr>heap = h, root_node = root, cur_dir = ''/''\<rparr>)"

subsection \<open>\<open>_find_node_by_path\<close>\<close>

fun find_node_by_path :: "heap \<Rightarrow> addr \<Rightarrow> string list \<Rightarrow> addr option" where
  "find_node_by_path h current_node [] = Some current_node"
| "find_node_by_path h current_node (part # parts) =
     (if part = [] then find_node_by_path h current_node parts
      else (case get_child h current_node part of
              None \<Rightarrow> None
            | Some c \<Rightarrow> find_node_by_path h c parts))"

subsection \<open>\<open>_ls_cmd\<close> and \<open>_cd_cmd\<close>\<close>

definition ls_cmd :: "App \<Rightarrow> string list \<Rightarrow> string" where
  "ls_cmd s arg =
     (let path = (case arg of [] \<Rightarrow> cur_dir s | a # _ \<Rightarrow> a)
      in (case find_node_by_path (heap s) (root_node s) (split CHR ''/'' (strip CHR ''/'' path)) of
            None \<Rightarrow> []
          | Some node \<Rightarrow>
              if has_children (heap s) node
              then join [CHR 0x0A] (sort (map fst (children (heap s node))))
              else []))"

definition cd_cmd :: "App \<Rightarrow> string list \<Rightarrow> string \<times> App" where
  "cd_cmd s arg =
     (case arg of
        [] \<Rightarrow> ([], s)
      | a # _ \<Rightarrow>
          (let target_dir = strip CHR ''/'' a
           in if target_dir = ''..'' then
                (if cur_dir s \<noteq> ''/''
                 then (let up = join ''/'' (butlast (split CHR ''/'' (rstrip CHR ''/'' (cur_dir s))))
                       in ([], s\<lparr>cur_dir := (if up = [] then ''/'' else up)\<rparr>))
                 else ([], s))
              else if target_dir = ''/'' then ([], s\<lparr>cur_dir := ''/''\<rparr>)
              else
                (let new_dir = strip CHR ''/'' (rstrip CHR ''/'' (cur_dir s) @ ''/'' @ target_dir)
                 in (case find_node_by_path (heap s) (root_node s) (split CHR ''/'' new_dir) of
                       None \<Rightarrow> (''Directory not found: '' @ target_dir, s)
                     | Some target_node \<Rightarrow>
                         if is_dir (heap s target_node)
                         then ([], s\<lparr>cur_dir := ''/'' @ new_dir\<rparr>)
                         else (''Directory not found: '' @ target_dir, s)))))"

subsection \<open>\<open>_dfs_tree\<close> and \<open>_tree_cmd\<close>\<close>

text \<open>
  \<open>_dfs_tree\<close> recurses once per level of the structure below \<open>node\<close>.  The first argument
  is the number of nested calls the interpreter still allows before it raises
  \<open>RecursionError\<close>; on a cyclic structure that is how the call ends.  \<open>sorted\<close> is stable,
  as \<open>sort_key\<close> is; the key is the pair \<open>(not n.is_dir, n.name)\<close>.  The
  parameter \<open>prefix\<close> of the source is \<open>pfx\<close> here, and the body of the loop over
  \<open>enumerate(sorted_children)\<close>, with the string built so far, is \<open>dfs_loop_body\<close>.
\<close>

definition dfs_loop_body ::
  "(addr \<Rightarrow> string \<Rightarrow> exn + string) \<Rightarrow> string \<Rightarrow> nat \<Rightarrow> exn + string \<Rightarrow> nat \<times> addr \<Rightarrow> exn + string" where
  "dfs_loop_body self_dfs_tree pfx len acc ic =
     (case acc of
        Inl e \<Rightarrow> Inl e
      | Inr tree_str \<Rightarrow>
          (let idx = fst ic; child = snd ic;
               child_prefix = pfx @ (if idx < len - 1 then ''|  '' else ''   '')
           in case self_dfs_tree child child_prefix of
                Inl e \<Rightarrow> Inl e
              | Inr sub \<Rightarrow> Inr (tree_str @ sub)))"

fun dfs_tree :: "nat \<Rightarrow> heap \<Rightarrow> addr \<Rightarrow> string \<Rightarrow> exn + string" where
  "dfs_tree 0 h node pfx = Inl RecursionError"
| "dfs_tree (Suc depth) h node pfx =
     (let tree_str = pfx @ name (h node) @ (if is_dir (h node) then ''/'' @ [CHR 0x0A] else [CHR 0x0A]);
          sorted_children = sort_key (\<lambda>n. (\<not> is_dir (h n), name (h n))) (map snd (children (h node)))
      in foldl (dfs_loop_body (\<lambda>child child_prefix. dfs_tree depth h child child_prefix)
                  pfx (length sorted_children))
               (Inr tree_str) (enumerate 0 sorted_children))"

text \<open>
  A handler returns its result string and the state it leaves, or raises.  No handler
  changes the state before it raises.
\<close>

type_synonym handler = "App \<Rightarrow> string list \<Rightarrow> exn + (string \<times> App)"

definition tree_cmd :: "nat \<Rightarrow> handler" where
  "tree_cmd depth s arg =
     (let path = (case arg of [] \<Rightarrow> cur_dir s | a # _ \<Rightarrow> a)
      in (case find_node_by_path (heap s) (root_node s) (split CHR ''/'' (strip CHR ''/'' path)) of
            None \<Rightarrow> Inr (''Directory not found.'', s)
          | Some node \<Rightarrow>
              (case dfs_tree depth (heap s) node [] of
                 Inl e \<Rightarrow> Inl e
               | Inr out \<Rightarrow> Inr (out, s))))"

subsection \<open>\<open>_mv_cmd\<close>\<close>

text \<open>\<open>d.pop(k)\<close> raises \<open>KeyError\<close> when the key is absent.\<close>

definition pop :: "string \<Rightarrow> (string \<times> addr) list \<Rightarrow> exn + (string \<times> addr) list" where
  "pop k d = (if k \<in> fst ` set d then Inr (AList.delete k d) else Inl (KeyError k))"

definition mv_cmd :: handler where
  "mv_cmd s arg =
     (case arg of
        a0 # a1 # _ \<Rightarrow>
          (let src = strip CHR ''/'' a0;
               dest = strip CHR ''/'' a1;
               h = heap s;
               src_node = find_node_by_path h (root_node s) (split CHR ''/'' src);
               dest_node = find_node_by_path h (root_node s) (split CHR ''/'' dest)
           in case src_node of
                None \<Rightarrow> Inr (a0 @ '' not found.'', s)
              | Some src_node \<Rightarrow>
                 (case dest_node of
                    Some _ \<Rightarrow> Inr (''Destination '' @ a1 @ '' already exists.'', s)
                  | None \<Rightarrow>
                     (let src_parts = split CHR ''/'' src
                      in case find_node_by_path h (root_node s) (butlast src_parts) of
                           None \<Rightarrow> Inr (''Source parent not found: '' @ join ''/'' (butlast src_parts), s)
                         | Some src_parent \<Rightarrow>
                            (case pop (last src_parts) (children (h src_parent)) of
                               Inl e \<Rightarrow> Inl e
                             | Inr popped \<Rightarrow>
                                (let h1 = h(src_parent := (h src_parent)\<lparr>children := popped\<rparr>);
                                     dest_parts = split CHR ''/'' dest
                                 in case find_node_by_path h1 (root_node s) (butlast dest_parts) of
                                      None \<Rightarrow>
                                        Inr (''Destination parent not found: '' @ join ''/'' (butlast dest_parts),
                                             s\<lparr>heap := h1\<rparr>)
                                    | Some dest_parent \<Rightarrow>
                                        (let h2 = h1(src_node := (h1 src_node)\<lparr>name := last dest_parts\<rparr>);
                                             h3 = add_child h2 dest_parent src_node
                                         in Inr (a0 @ '' moved to '' @ a1 @ ''.'', s\<lparr>heap := h3\<rparr>)))))))
      | _ \<Rightarrow> Inr (''Usage: mv <source> <destination>'', s))"

subsection \<open>\<open>_exit_cmd\<close> and \<open>_cmd_exec\<close>\<close>

text \<open>\<open>exit(0)\<close> raises \<open>SystemExit\<close>; the archive handle it closes first is not modelled.\<close>

definition exit_cmd :: handler where
  "exit_cmd s arg = Inl SystemExit"

text \<open>The dispatch table of \<open>_cmd_exec\<close>, in the order of the source.\<close>

definition commands :: "nat \<Rightarrow> (string \<times> handler) list" where
  "commands depth =
     [(''ls'', \<lambda>s arg. Inr (ls_cmd s arg, s)),
      (''cd'', \<lambda>s arg. Inr (cd_cmd s arg)),
      (''mv'', mv_cmd),
      (''tree'', tree_cmd depth),
      (''exit'', exit_cmd)]"

text \<open>
  \<open>_cmd_exec\<close>: an exception that is an instance of \<open>Exception\<close> becomes an error string;
  any other one passes through \<open>except Exception\<close> to the caller.
\<close>

definition cmd_exec :: "nat \<Rightarrow> App \<Rightarrow> string list \<Rightarrow> exn + (string \<times> App)" where
  "cmd_exec depth s lines =
     (case lines of
        [] \<Rightarrow> Inr ([], s)
      | l # args \<Rightarrow>
          if strip_ws l = [] then Inr ([], s)
          else
            (let cmd = strip_ws l
             in case map_of (commands depth) cmd of
                  Some handler \<Rightarrow>
                    (case handler s args of
                       Inr (res, s') \<Rightarrow> Inr (res, s')
                     | Inl e \<Rightarrow>
                         if is_Exception e then Inr (''Error: '' @ str_exn e, s) else Inl e)
                | None \<Rightarrow> Inr (''Unknown command: '' @ cmd, s)))"

text \<open>
  \<open>_run_startup_script\<close> and the command loop feed token lists to \<open>_cmd_exec\<close> one after
  the other, each on the state the previous one left, until one of them raises.
\<close>

fun run_script :: "nat \<Rightarrow> App \<Rightarrow> string list list \<Rightarrow> exn + App" where
  "run_script depth s [] = Inr s"
| "run_script depth s (l # ls) =
     (case cmd_exec depth s l of
        Inl e \<Rightarrow> Inl e
      | Inr (out, s') \<Rightarrow> run_script depth s' ls)"

section \<open>Example archives\<close>

text \<open>The archive of the repository's tests; none of its members is a directory entry.\<close>

definition test_archive :: "member list" where
  "test_archive =
     [(''dir1/'', False), (''dir1/file1.txt'', False), (''dir1/file2.txt'', False),
      (''dir2/'', False), (''dir2/file3.txt'', False), (''file4.txt'', False)]"

definition test_App :: App where
  "test_App = init_App test_archive"

text \<open>A session that has changed into the directory \<open>dir1\<close>.\<close>

definition cd_example :: App where
  "cd_example = snd (cd_cmd (init_App [(''dir1'', True)]) [''dir1''])"

text \<open>A session in \<open>/dir1\<close>, where both \<open>/sub\<close> and \<open>/dir1/sub\<close> exist.\<close>

definition rel_example :: App where
  "rel_example = snd (cd_cmd (init_App
      [(''dir1'', True), (''dir1/sub'', True), (''dir1/sub/inner.txt'', False),
       (''sub'', True), (''sub/outer.txt'', False)]) [''dir1''])"

text \<open>A directory entry before its file, and a file entry before an entry below it.\<close>

definition dir_first :: "member list" where
  "dir_first = [(''d'', True), (''d/f'', False)]"

definition file_first :: "member list" where
  "file_first = [(''a'', False), (''a/b'', False)]"

text \<open>An archive with a member for the root directory itself, named \<open>/\<close>.\<close>

definition cycle_archive :: "member list" where
  "cycle_archive = [(''/'', True), (''a'', False)]"

text \<open>The rendering of the root of the test archive that the repository's test expects.\<close>

definition test_render :: string where
  "test_render = ''//'' @ [CHR 0x0A] @ ''|  dir1'' @ [CHR 0x0A] @ ''|  |  file1.txt'' @ [CHR 0x0A] @
          ''|     file2.txt'' @ [CHR 0x0A] @ ''|  dir2'' @ [CHR 0x0A] @ ''|     file3.txt'' @ [CHR 0x0A] @
          ''   file4.txt'' @ [CHR 0x0A]"

section \<open>Predicates of the statements\<close>

text \<open>
  \<open>depth_ok h node depth\<close>: the structure below \<open>node\<close> has fewer than \<open>depth\<close> levels
  below it, so that \<open>depth\<close> nested calls of \<open>_dfs_tree\<close> render it.
\<close>

fun depth_ok :: "heap \<Rightarrow> addr \<Rightarrow> nat \<Rightarrow> bool" where
  "depth_ok h node 0 = False"
| "depth_ok h node (Suc depth) = (\<forall>c \<in> snd ` set (children (h node)). depth_ok h c depth)"

text \<open>\<open>reachable h r a\<close>: the node \<open>a\<close> is reached from \<open>r\<close> along \<open>children\<close> entries.\<close>

inductive reachable :: "heap \<Rightarrow> addr \<Rightarrow> addr \<Rightarrow> bool" for h :: heap and r :: addr where
  reachable_root: "reachable h r r"
| reachable_child: "reachable h r a \<Longrightarrow> (k, c) \<in> set (children (h a)) \<Longrightarrow> reachable h r c"

text \<open>
  The structure is a tree when the keys of every \<open>children\<close> dictionary are distinct
  (which a dictionary guarantees), every node's name is its key in its parent, no node is
  an entry of two dictionaries or twice of one, and the root is an entry of none.
\<close>

definition keys_distinct :: "heap \<Rightarrow> bool" where
  "keys_distinct h = (\<forall>a. distinct (map fst (children (h a))))"

definition names_ok :: "heap \<Rightarrow> bool" where
  "names_ok h = (\<forall>a k c. (k, c) \<in> set (children (h a)) \<longrightarrow> name (h c) = k)"

definition one_parent :: "heap \<Rightarrow> bool" where
  "one_parent h = (\<forall>a b k k' c. (k, c) \<in> set (children (h a)) \<and> (k', c) \<in> set (children (h b)) \<longrightarrow> a = b \<and> k = k')"

definition root_top :: "heap \<Rightarrow> addr \<Rightarrow> bool" where
  "root_top h r = (\<forall>a k. (k, r) \<notin> set (children (h a)))"

definition tree_inv :: "heap \<Rightarrow> addr \<Rightarrow> bool" where
  "tree_inv h r = (keys_distinct h \<and> names_ok h \<and> one_parent h \<and> root_top h r)"

text \<open>The invariant of a session: a tree whose root has no child with the empty name.\<close>

definition session_inv :: "App \<Rightarrow> bool" where
  "session_inv s = (tree_inv (heap s) (root_node s) \<and> [] \<notin> fst ` set (children (heap s (root_node s))))"

text \<open>
  \<open>walk\<close> follows a list of keys from a node, empty keys included (which
  \<open>find_node_by_path\<close> skips); \<open>node_at\<close> is the name and the directory flag of the node
  a key path leads to.  The function \<open>node_at h r\<close> is the structure below \<open>r\<close> without the
  addresses and without the order of the dictionaries.
\<close>

fun walk :: "heap \<Rightarrow> addr \<Rightarrow> string list \<Rightarrow> addr option" where
  "walk h a [] = Some a"
| "walk h a (k # ks) = (case get_child h a k of None \<Rightarrow> None | Some c \<Rightarrow> walk h c ks)"

definition node_at :: "heap \<Rightarrow> addr \<Rightarrow> string list \<Rightarrow> (string \<times> bool) option" where
  "node_at h r p = map_option (\<lambda>a. (name (h a), is_dir (h a))) (walk h r p)"

text \<open>The segments of a member's name, as \<open>_build_tree\<close> computes them.\<close>

definition parts_of :: "member \<Rightarrow> string list" where
  "parts_of m = split CHR ''/'' (strip CHR ''/'' (fst m))"

text \<open>
  \<open>flags_consistent\<close>: a name that a non-directory member gives is a prefix of no other
  member's name, and no directory member gives the same name.
\<close>

definition flags_consistent :: "member list \<Rightarrow> bool" where
  "flags_consistent ms =
     (\<forall>m \<in> set ms. \<forall>m' \<in> set ms.
        \<not> snd m \<and> prefix (parts_of m) (parts_of m') \<longrightarrow> parts_of m' = parts_of m \<and> \<not> snd m')"

text \<open>
  \<open>first_named_by_file ms p\<close>: the first member whose name begins with the key path \<open>p\<close>
  is a non-directory member whose name is \<open>p\<close> itself, so that member creates the node at
  \<open>p\<close>, as a file.
\<close>

definition first_named_by_file :: "member list \<Rightarrow> string list \<Rightarrow> bool" where
  "first_named_by_file ms p =
     (case List.find (\<lambda>m. prefix p (parts_of m)) ms of
        None \<Rightarrow> False
      | Some m \<Rightarrow> parts_of m = p \<and> \<not> snd m)"

section \<open>Auxiliary definitions of the proofs\<close>

text \<open>The non-empty segments of a path, which are all that \<open>_find_node_by_path\<close> looks at.\<close>

definition segments :: "string \<Rightarrow> string list" where
  "segments x = filter (\<lambda>p. p \<noteq> []) (split CHR ''/'' x)"

text \<open>The two store updates of \<open>_mv_cmd\<close> and the allocation of \<open>_build_tree\<close>.\<close>

definition detach :: "heap \<Rightarrow> addr \<Rightarrow> string \<Rightarrow> heap" where
  "detach h p k = h(p := (h p)\<lparr>children := AList.delete k (children (h p))\<rparr>)"

definition attach :: "heap \<Rightarrow> addr \<Rightarrow> addr \<Rightarrow> string \<Rightarrow> heap" where
  "attach h c p nm = add_child (h(c := (h c)\<lparr>name := nm\<rparr>)) p c"

definition alloc_child :: "heap \<Rightarrow> addr \<Rightarrow> addr \<Rightarrow> string \<Rightarrow> bool \<Rightarrow> heap" where
  "alloc_child h n cur part d = add_child (h(n := new_Node part d)) cur n"

text \<open>
  During the construction every node below \<open>n\<close> is allocated and carries its key path
  from the root, given by \<open>pf\<close>; distinct nodes carry distinct paths.
\<close>

definition paths_inv :: "heap \<Rightarrow> addr \<Rightarrow> addr \<Rightarrow> (addr \<Rightarrow> string list) \<Rightarrow> bool" where
  "paths_inv h n r pf =
     (r < n \<and> pf r = [] \<and> inj_on pf {..<n} \<and> keys_distinct h \<and>
      (\<forall>a k c. (k, c) \<in> set (children (h a)) \<longrightarrow> a < n \<and> c < n \<and> pf c = pf a @ [k] \<and> name (h c) = k) \<and>
      (\<forall>c<n. c \<noteq> r \<longrightarrow> (\<exists>a k. (k, c) \<in> set (children (h a)))))"

text \<open>The effect of one member on the function \<open>node_at\<close>, and the structure of the root alone.\<close>

definition ins_member ::
  "(string list \<Rightarrow> (string \<times> bool) option) \<Rightarrow> member \<Rightarrow> string list \<Rightarrow> (string \<times> bool) option" where
  "ins_member A m p =
     (case A p of
        Some x \<Rightarrow> Some x
      | None \<Rightarrow> if prefix p (parts_of m) then Some (last p, p \<noteq> parts_of m \<or> snd m) else None)"

definition root_only :: "string list \<Rightarrow> (string \<times> bool) option" where
  "root_only p = (if p = [] then Some (''/'', True) else None)"

section \<open>Properties of the string operations\<close>

lemma split_not_Nil: "split sep s \<noteq> []"
  by (induction s) (auto split: list.splits)

lemma rstrip_fix: "xs = [] \<or> last xs \<noteq> c \<Longrightarrow> rstrip c xs = xs"
  unfolding rstrip_def
  by (cases xs rule: rev_cases) auto

lemma rstrip_last: "rstrip c s = [] \<or> last (rstrip c s) \<noteq> c"
proof (cases "dropWhile (\<lambda>x. x = c) (rev s)")
  case Nil
  then show ?thesis by (simp add: rstrip_def)
next
  case (Cons y ys)
  then have "y \<noteq> c" using hd_dropWhile [of "\<lambda>x. x = c" "rev s"] by auto
  with Cons show ?thesis by (simp add: rstrip_def)
qed

lemma lstrip_last: "xs = [] \<or> last xs \<noteq> c \<Longrightarrow> lstrip c xs = [] \<or> last (lstrip c xs) \<noteq> c"
  unfolding lstrip_def by (induction xs) (auto split: if_splits)

lemma lstrip_idem: "lstrip c (lstrip c s) = lstrip c s"
  unfolding lstrip_def by (simp add: dropWhile_idem)

lemma strip_idem: "strip c (strip c s) = strip c s"
proof -
  have "rstrip c (strip c s) = strip c s"
    unfolding strip_def by (rule rstrip_fix, rule lstrip_last, rule rstrip_last)
  then show ?thesis
    by (simp add: strip_def[of c "strip c s"]) (simp add: strip_def lstrip_idem)
qed

lemma strip_ends: "strip c s = [] \<or> (hd (strip c s) \<noteq> c \<and> last (strip c s) \<noteq> c)"
proof -
  have "strip c s = [] \<or> last (strip c s) \<noteq> c"
    unfolding strip_def by (rule lstrip_last, rule rstrip_last)
  moreover have "strip c s \<noteq> [] \<Longrightarrow> hd (strip c s) \<noteq> c"
    unfolding strip_def lstrip_def using hd_dropWhile [of "\<lambda>x. x = c"] by auto
  ultimately show ?thesis by auto
qed


lemma strip_never_slash: "strip CHR ''/'' a \<noteq> ''/''"
  using strip_ends [of "CHR ''/''" a] by auto

section \<open>\<open>cd\<close>\<close>

lemma find_append:
  "find_node_by_path h a (ps @ qs) =
     (case find_node_by_path h a ps of None \<Rightarrow> None | Some b \<Rightarrow> find_node_by_path h b qs)"
  by (induction ps arbitrary: a) (auto split: option.splits)

lemma find_segments:
  "find_node_by_path h a ps = find_node_by_path h a (filter (\<lambda>p. p \<noteq> []) ps)"
  by (induction ps arbitrary: a) (auto split: option.splits)

lemma split_append_sep: "split sep (x @ sep # y) = split sep x @ split sep y"
proof (induction x)
  case Nil
  then show ?case by simp
next
  case (Cons c cs)
  then show ?case
    using split_not_Nil[of sep cs] by (cases "split sep cs") auto
qed

lemma segments_append: "segments (x @ ''/'' @ y) = segments x @ segments y"
  by (simp add: segments_def split_append_sep)

lemma segments_lstrip: "segments (lstrip CHR ''/'' x) = segments x"
  by (induction x) (auto simp: segments_def lstrip_def)

lemma rstrip_snoc: "rstrip c (x @ [d]) = (if d = c then rstrip c x else x @ [d])"
  by (simp add: rstrip_def)

lemma segments_snoc_sep: "segments (x @ ''/'') = segments x"
  using split_append_sep[of "CHR ''/''" x "[]"] by (simp add: segments_def)

lemma segments_rstrip: "segments (rstrip CHR ''/'' x) = segments x"
  by (induction x rule: rev_induct) (auto simp: rstrip_snoc segments_snoc_sep rstrip_def)

lemma segments_strip: "segments (strip CHR ''/'' x) = segments x"
  by (simp add: strip_def segments_lstrip segments_rstrip)

lemma find_cur_dir_relative:
  "find_node_by_path h r (split CHR ''/'' (strip CHR ''/'' (rstrip CHR ''/'' cur @ ''/'' @ t))) =
     (case find_node_by_path h r (split CHR ''/'' (strip CHR ''/'' cur)) of
        None \<Rightarrow> None
      | Some d \<Rightarrow> find_node_by_path h d (split CHR ''/'' t))"
proof -
  have "find_node_by_path h r (split CHR ''/'' (strip CHR ''/'' (rstrip CHR ''/'' cur @ ''/'' @ t))) =
        find_node_by_path h r (segments cur @ segments t)"
    using find_segments[of h r "split CHR ''/'' (strip CHR ''/'' (rstrip CHR ''/'' cur @ ''/'' @ t))"]
      segments_strip[of "rstrip CHR ''/'' cur @ ''/'' @ t"]
      segments_append[of "rstrip CHR ''/'' cur" t] segments_rstrip[of cur]
    by (simp add: segments_def)
  also have "\<dots> = (case find_node_by_path h r (segments cur) of
        None \<Rightarrow> None | Some d \<Rightarrow> find_node_by_path h d (segments t))"
    by (rule find_append)
  also have "\<dots> = (case find_node_by_path h r (split CHR ''/'' (strip CHR ''/'' cur)) of
        None \<Rightarrow> None | Some d \<Rightarrow> find_node_by_path h d (split CHR ''/'' t))"
    using find_segments[of h r "split CHR ''/'' (strip CHR ''/'' cur)"] segments_strip[of cur]
      find_segments[of h _ "split CHR ''/'' t"]
    by (simp add: segments_def split: option.splits)
  finally show ?thesis .
qed

lemma find_cur_dir_relative':
  "find_node_by_path h r (split CHR ''/'' (strip CHR ''/'' (rstrip CHR ''/'' cur @ CHR ''/'' # t))) =
     (case find_node_by_path h r (split CHR ''/'' (strip CHR ''/'' cur)) of
        None \<Rightarrow> None
      | Some d \<Rightarrow> find_node_by_path h d (split CHR ''/'' t))"
  using find_cur_dir_relative[of h r cur t] by simp

text \<open>
  C10.  \<open>cd\<close> with an argument behaves as \<open>cd\<close> with that argument stripped of its leading
  and trailing slashes.  Unless the stripped argument is \<open>..\<close>, the target is looked up
  from the node of the current directory along the segments of the argument, never from
  the root: when it is a directory the new current directory is the old one followed by
  the stripped argument, and otherwise the state is unchanged and the result is
  \<open>Directory not found\<close>.  So \<open>/sub\<close> in \<open>/dir1\<close> leads to \<open>/dir1/sub\<close>, as \<open>sub\<close> does.
  For the argument \<open>/\<close> this is the behaviour that C4 reports.
\<close>

theorem cd_cmd_strip:
  "cd_cmd s (a # rest) = cd_cmd s (strip CHR ''/'' a # rest) \<and>
   (strip CHR ''/'' a \<noteq> ''..'' \<longrightarrow>
      cd_cmd s (a # rest) =
        (case (case find_node_by_path (heap s) (root_node s) (split CHR ''/'' (strip CHR ''/'' (cur_dir s))) of
                 None \<Rightarrow> None
               | Some cur_node \<Rightarrow> find_node_by_path (heap s) cur_node (split CHR ''/'' (strip CHR ''/'' a))) of
           None \<Rightarrow> (''Directory not found: '' @ strip CHR ''/'' a, s)
         | Some target_node \<Rightarrow>
             if is_dir (heap s target_node)
             then ([], s\<lparr>cur_dir := ''/'' @ strip CHR ''/'' (rstrip CHR ''/'' (cur_dir s) @ ''/'' @ strip CHR ''/'' a)\<rparr>)
             else (''Directory not found: '' @ strip CHR ''/'' a, s)))"
proof (intro conjI impI)
  show "cd_cmd s (a # rest) = cd_cmd s (strip CHR ''/'' a # rest)"
    by (simp add: cd_cmd_def strip_idem)
next
  assume "strip CHR ''/'' a \<noteq> ''..''"
  then show "cd_cmd s (a # rest) =
        (case (case find_node_by_path (heap s) (root_node s) (split CHR ''/'' (strip CHR ''/'' (cur_dir s))) of
                 None \<Rightarrow> None
               | Some cur_node \<Rightarrow> find_node_by_path (heap s) cur_node (split CHR ''/'' (strip CHR ''/'' a))) of
           None \<Rightarrow> (''Directory not found: '' @ strip CHR ''/'' a, s)
         | Some target_node \<Rightarrow>
             if is_dir (heap s target_node)
             then ([], s\<lparr>cur_dir := ''/'' @ strip CHR ''/'' (rstrip CHR ''/'' (cur_dir s) @ ''/'' @ strip CHR ''/'' a)\<rparr>)
             else (''Directory not found: '' @ strip CHR ''/'' a, s))"
    using strip_never_slash[of a]
    by (simp add: cd_cmd_def Let_def find_cur_dir_relative' split: option.splits)
qed

theorem cd_cmd_strip_witness:
  "strip CHR ''/'' ''/sub'' \<noteq> ''..'' \<and>
   cur_dir rel_example = ''/dir1'' \<and>
   find_node_by_path (heap rel_example) (root_node rel_example) (split CHR ''/'' (strip CHR ''/'' (cur_dir rel_example))) = Some 1 \<and>
   find_node_by_path (heap rel_example) 1 (split CHR ''/'' (strip CHR ''/'' ''/sub'')) = Some 2 \<and>
   find_node_by_path (heap rel_example) (root_node rel_example) (split CHR ''/'' (strip CHR ''/'' ''/sub'')) = Some 4 \<and>
   cd_cmd rel_example [''/sub''] = cd_cmd rel_example [''sub''] \<and>
   fst (cd_cmd rel_example [''/sub'']) = [] \<and>
   cur_dir (snd (cd_cmd rel_example [''/sub''])) = ''/dir1/sub''"
proof -
  have a: "strip CHR ''/'' ''/sub'' \<noteq> ''..''"
    and b: "cur_dir rel_example = ''/dir1''"
    and c: "find_node_by_path (heap rel_example) (root_node rel_example) (split CHR ''/'' (strip CHR ''/'' (cur_dir rel_example))) = Some 1"
    and d: "find_node_by_path (heap rel_example) 1 (split CHR ''/'' (strip CHR ''/'' ''/sub'')) = Some 2"
    and e: "find_node_by_path (heap rel_example) (root_node rel_example) (split CHR ''/'' (strip CHR ''/'' ''/sub'')) = Some 4"
    and f: "is_dir (heap rel_example 2)"
    and g: "''/'' @ strip CHR ''/'' (rstrip CHR ''/'' (cur_dir rel_example) @ ''/'' @ strip CHR ''/'' ''/sub'') = ''/dir1/sub''"
    and h: "strip CHR ''/'' ''/sub'' = ''sub''"
    by code_simp+
  from cd_cmd_strip[of rel_example "''/sub''" "[]"] a
  have eq: "cd_cmd rel_example [''/sub''] = cd_cmd rel_example [''sub'']"
    and res: "cd_cmd rel_example [''/sub''] =
        (case (case find_node_by_path (heap rel_example) (root_node rel_example) (split CHR ''/'' (strip CHR ''/'' (cur_dir rel_example))) of
                 None \<Rightarrow> None
               | Some cur_node \<Rightarrow> find_node_by_path (heap rel_example) cur_node (split CHR ''/'' (strip CHR ''/'' ''/sub''))) of
           None \<Rightarrow> (''Directory not found: '' @ strip CHR ''/'' ''/sub'', rel_example)
         | Some target_node \<Rightarrow>
             if is_dir (heap rel_example target_node)
             then ([], rel_example\<lparr>cur_dir := ''/'' @ strip CHR ''/'' (rstrip CHR ''/'' (cur_dir rel_example) @ ''/'' @ strip CHR ''/'' ''/sub'')\<rparr>)
             else (''Directory not found: '' @ strip CHR ''/'' ''/sub'', rel_example))"
    unfolding h by blast+
  from res have "cd_cmd rel_example [''/sub''] = ([], rel_example\<lparr>cur_dir := ''/dir1/sub''\<rparr>)"
    by (simp only: c d g option.case f if_True)
  then have "fst (cd_cmd rel_example [''/sub'']) = []" "cur_dir (snd (cd_cmd rel_example [''/sub''])) = ''/dir1/sub''"
    by simp_all
  with a b c d e eq show ?thesis by simp
qed

text \<open>
  C4.  \<open>cd /\<close> does not reset the current directory: the argument is stripped to the empty
  string before it is compared with \<open>/\<close>, so the branch that assigns the root is never
  taken.  In a session whose current directory is \<open>/dir1\<close>, \<open>cd /\<close> returns the empty
  result and leaves the current directory \<open>/dir1\<close>.
\<close>

theorem cd_slash_keeps_cur_dir:
  "cur_dir cd_example = ''/dir1'' \<and>
   fst (cd_cmd cd_example [''/'']) = [] \<and>
   cur_dir (snd (cd_cmd cd_example [''/''])) = ''/dir1''"
  by code_simp

section \<open>\<open>ls\<close>\<close>

lemma ls_cmd_ignores_cur_dir: "ls_cmd (s\<lparr>cur_dir := d\<rparr>) (a # rest) = ls_cmd s (a # rest)"
  by (simp add: ls_cmd_def split: option.splits)

text \<open>
  C5.  \<open>ls\<close> and \<open>tree\<close> with an explicit argument resolve it from the root, whatever the
  current directory is.  In a session whose current directory is \<open>/dir1\<close>, \<open>ls sub\<close> lists
  \<open>/sub\<close> and not \<open>/dir1/sub\<close>, and \<open>tree sub\<close> renders \<open>/sub\<close>.
\<close>

theorem ls_tree_arg_from_root:
  "cur_dir rel_example = ''/dir1'' \<and>
   ls_cmd rel_example [''sub''] = ''outer.txt'' \<and>
   ls_cmd rel_example [''dir1/sub''] = ''inner.txt'' \<and>
   map_sum id fst (tree_cmd 100 rel_example [''sub'']) =
     Inr (''sub/'' @ [CHR 0x0A] @ ''   outer.txt'' @ [CHR 0x0A])"
  by code_simp

text \<open>
  C6.  The target of \<open>ls\<close> is its first argument, or the current directory when there is
  none.  When the target does not resolve the result is empty; when it resolves to a node
  without children the result is empty; when it resolves to a node with children the result
  is the newline-joined list of the children's names (the keys of the node's \<open>children\<close>
  dictionary) in ascending string order, directories and files alike.
\<close>

theorem ls_cmd_result:
  fixes s :: App and arg :: "string list"
  defines "target \<equiv> (if arg = [] then cur_dir s else hd arg)"
  defines "found \<equiv> find_node_by_path (heap s) (root_node s) (split CHR ''/'' (strip CHR ''/'' target))"
  shows "(found = None \<longrightarrow> ls_cmd s arg = []) \<and>
         (\<forall>node. found = Some node \<and> children (heap s node) = [] \<longrightarrow> ls_cmd s arg = []) \<and>
         (\<forall>node. found = Some node \<and> children (heap s node) \<noteq> [] \<longrightarrow>
            (\<exists>names. ls_cmd s arg = join [CHR 0x0A] names \<and> sorted names \<and>
                     mset names = mset (map fst (children (heap s node)))))"
proof -
  have t: "(case arg of [] \<Rightarrow> cur_dir s | a # _ \<Rightarrow> a) = target"
    by (cases arg) (simp_all add: target_def)
  show ?thesis
    unfolding ls_cmd_def t Let_def found_def[symmetric]
    by (cases found) (auto simp: has_children_def intro!: exI[of _ "sort (map fst (children (heap s _)))"])
qed

theorem ls_cmd_result_witness:
  "find_node_by_path (heap test_App) (root_node test_App) (split CHR ''/'' (strip CHR ''/'' (cur_dir test_App))) = Some 0 \<and>
   children (heap test_App 0) \<noteq> [] \<and>
   (\<exists>names. ls_cmd test_App [] = join [CHR 0x0A] names \<and> sorted names \<and>
             mset names = mset (map fst (children (heap test_App 0)))) \<and>
   find_node_by_path (heap test_App) (root_node test_App) (split CHR ''/'' (strip CHR ''/'' ''file4.txt'')) = Some 6 \<and>
   children (heap test_App 6) = [] \<and>
   ls_cmd test_App [''file4.txt''] = [] \<and>
   find_node_by_path (heap test_App) (root_node test_App) (split CHR ''/'' (strip CHR ''/'' ''dir3'')) = None \<and>
   ls_cmd test_App [''dir3''] = []"
proof -
  have a: "find_node_by_path (heap test_App) (root_node test_App) (split CHR ''/'' (strip CHR ''/'' (cur_dir test_App))) = Some 0"
    and b: "children (heap test_App 0) \<noteq> []"
    and c: "find_node_by_path (heap test_App) (root_node test_App) (split CHR ''/'' (strip CHR ''/'' ''file4.txt'')) = Some 6"
    and d: "children (heap test_App 6) = []"
    and e: "find_node_by_path (heap test_App) (root_node test_App) (split CHR ''/'' (strip CHR ''/'' ''dir3'')) = None"
    by code_simp+
  show ?thesis
    using ls_cmd_result[where s=test_App and arg="[]"] ls_cmd_result[where s=test_App and arg="[''file4.txt'']"]
      ls_cmd_result[where s=test_App and arg="[''dir3'']"] a b c d e
    by simp
qed

text \<open>The listing of the root of the test archive, as the repository's test expects it.\<close>

lemma ls_test_root: "ls_cmd test_App [] = ''dir1'' @ [CHR 0x0A] @ ''dir2'' @ [CHR 0x0A] @ ''file4.txt''"
  by code_simp

section \<open>The tree rendering\<close>

lemma dfs_loop_body_Inl [simp]: "dfs_loop_body f pfx len (Inl e) ic = Inl e"
  by (simp add: dfs_loop_body_def)

lemma dfs_loop_body_Inr:
  "dfs_loop_body f pfx len (Inr t) ic =
     (case f (snd ic) (pfx @ (if fst ic < len - 1 then ''|  '' else ''   '')) of
        Inl e \<Rightarrow> Inl e | Inr sub \<Rightarrow> Inr (t @ sub))"
  by (simp add: dfs_loop_body_def)

lemma dfs_loop_Inl [simp]: "foldl (dfs_loop_body f pfx len) (Inl e) xs = Inl e"
  by (induction xs) simp_all

lemma dfs_loop_raises:
  assumes "\<And>c p e. f c p = Inl e \<Longrightarrow> e = RecursionError"
  shows "foldl (dfs_loop_body f pfx len) (Inr t) xs = Inl e \<Longrightarrow> e = RecursionError"
proof (induction xs arbitrary: t)
  case Nil
  then show ?case by simp
next
  case (Cons x xs)
  show ?case
  proof (cases "f (snd x) (pfx @ (if fst x < len - 1 then ''|  '' else ''   ''))")
    case (Inl e')
    then have "e' = RecursionError" by (rule assms)
    with Inl Cons.prems show ?thesis
      by (simp add: dfs_loop_body_Inr)
  next
    case (Inr sub)
    with Cons.prems have "foldl (dfs_loop_body f pfx len) (Inr (t @ sub)) xs = Inl e"
      by (simp add: dfs_loop_body_Inr)
    then show ?thesis by (rule Cons.IH)
  qed
qed

lemma dfs_tree_raises: "dfs_tree depth h node pfx = Inl e \<Longrightarrow> e = RecursionError"
proof (induction depth arbitrary: node pfx e)
  case 0
  then show ?case by simp
next
  case (Suc depth)
  from Suc.prems show ?case
    by (simp add: Let_def) (erule dfs_loop_raises[rotated], erule Suc.IH)
qed

lemma dfs_loop_Inr:
  "foldl (dfs_loop_body f pfx len) (Inr t) (enumerate k cs) = Inr out \<Longrightarrow>
   \<exists>outs. length outs = length cs \<and> out = t @ concat outs \<and>
     (\<forall>i<length cs. f (cs ! i) (pfx @ (if k + i < len - 1 then ''|  '' else ''   '')) = Inr (outs ! i))"
proof (induction cs arbitrary: k t)
  case Nil
  then show ?case by simp
next
  case (Cons c cs)
  show ?case
  proof (cases "f c (pfx @ (if k < len - 1 then ''|  '' else ''   ''))")
    case (Inl e)
    with Cons.prems show ?thesis by (simp add: dfs_loop_body_Inr)
  next
    case (Inr sub)
    with Cons.prems have "foldl (dfs_loop_body f pfx len) (Inr (t @ sub)) (enumerate (Suc k) cs) = Inr out"
      by (simp add: dfs_loop_body_Inr)
    from Cons.IH[OF this] obtain outs where o: "length outs = length cs" "out = (t @ sub) @ concat outs"
      "\<forall>i<length cs. f (cs ! i) (pfx @ (if Suc k + i < len - 1 then ''|  '' else ''   '')) = Inr (outs ! i)"
      by blast
    have "\<forall>i<length (c # cs). f ((c # cs) ! i) (pfx @ (if k + i < len - 1 then ''|  '' else ''   '')) = Inr ((sub # outs) ! i)"
    proof (intro allI impI)
      fix i assume "i < length (c # cs)"
      then show "f ((c # cs) ! i) (pfx @ (if k + i < len - 1 then ''|  '' else ''   '')) = Inr ((sub # outs) ! i)"
        using o(3) Inr by (cases i) auto
    qed
    with o(1,2) show ?thesis
      by (intro exI[of _ "sub # outs"]) simp
  qed
qed

lemma dfs_loop_returns:
  "(\<And>c p. c \<in> set cs \<Longrightarrow> \<exists>out. f c p = Inr out) \<Longrightarrow>
   \<exists>out. foldl (dfs_loop_body f pfx len) (Inr t) (enumerate k cs) = Inr out"
proof (induction cs arbitrary: k t)
  case Nil
  then show ?case by simp
next
  case (Cons c cs)
  from Cons.prems[of c] obtain sub where "f c (pfx @ (if k < len - 1 then ''|  '' else ''   '')) = Inr sub"
    by auto
  moreover have "\<exists>out. foldl (dfs_loop_body f pfx len) (Inr (t @ sub)) (enumerate (Suc k) cs) = Inr out"
    by (rule Cons.IH) (simp add: Cons.prems)
  ultimately show ?case by (simp add: dfs_loop_body_Inr)
qed

lemma dfs_tree_returns: "depth_ok h node depth \<Longrightarrow> \<exists>out. dfs_tree depth h node pfx = Inr out"
proof (induction depth arbitrary: node pfx)
  case 0
  then show ?case by simp
next
  case (Suc depth)
  show ?case
    unfolding dfs_tree.simps Let_def
  proof (rule dfs_loop_returns)
    fix c p
    assume "c \<in> set (sort_key (\<lambda>n. (\<not> is_dir (h n), name (h n))) (map snd (children (h node))))"
    with Suc.prems have "depth_ok h c depth" by auto
    then show "\<exists>out. dfs_tree depth h c p = Inr out" by (rule Suc.IH)
  qed
qed

lemma sorted_children_order:
  assumes "cs = sort_key (\<lambda>n. (\<not> is_dir (h n), name (h n))) xs" and "i < j" and "j < length cs"
  shows "(is_dir (h (cs ! j)) \<longrightarrow> is_dir (h (cs ! i))) \<and>
         (is_dir (h (cs ! i)) = is_dir (h (cs ! j)) \<longrightarrow> name (h (cs ! i)) \<le> name (h (cs ! j)))"
proof -
  have "sorted (map (\<lambda>n. (\<not> is_dir (h n), name (h n))) cs)"
    unfolding assms(1) by (rule sorted_sort_key)
  then have "map (\<lambda>n. (\<not> is_dir (h n), name (h n))) cs ! i \<le> map (\<lambda>n. (\<not> is_dir (h n), name (h n))) cs ! j"
    using assms(2,3) by (intro sorted_nth_mono) simp_all
  then show ?thesis using assms(2,3) by (auto simp: less_eq_prod_def)
qed

text \<open>
  C7.  A rendering that returns consists of the prefix, the node's name, a \<open>/\<close> exactly
  when the node is a directory, a newline, and then the renderings of the children in the
  order of the key \<open>(not is_dir, name)\<close>: directories before files, and by name within
  each group.  Every child but the last is rendered with the prefix extended by \<open>"|  "\<close>,
  the last with the prefix extended by three spaces.  The rendering returns whenever the
  structure below the node fits into the recursion depth that is left.
\<close>

theorem dfs_tree_render:
  fixes h :: heap and node :: addr and pfx :: string and depth :: nat
  defines "cs \<equiv> sort_key (\<lambda>n. (\<not> is_dir (h n), name (h n))) (map snd (children (h node)))"
  shows
    "(depth_ok h node (Suc depth) \<longrightarrow> (\<exists>out. dfs_tree (Suc depth) h node pfx = Inr out)) \<and>
     (\<forall>out. dfs_tree (Suc depth) h node pfx = Inr out \<longrightarrow>
        (\<exists>outs. length outs = length cs \<and>
           out = pfx @ name (h node) @ (if is_dir (h node) then ''/'' else []) @ [CHR 0x0A] @ concat outs \<and>
           (\<forall>i<length cs.
              dfs_tree depth h (cs ! i) (pfx @ (if Suc i = length cs then ''   '' else ''|  '')) = Inr (outs ! i)))) \<and>
     mset cs = mset (map snd (children (h node))) \<and>
     (\<forall>i j. i < j \<and> j < length cs \<longrightarrow>
        (is_dir (h (cs ! j)) \<longrightarrow> is_dir (h (cs ! i))) \<and>
        (is_dir (h (cs ! i)) = is_dir (h (cs ! j)) \<longrightarrow> name (h (cs ! i)) \<le> name (h (cs ! j))))"
proof (intro conjI allI impI)
  assume "depth_ok h node (Suc depth)"
  then show "\<exists>out. dfs_tree (Suc depth) h node pfx = Inr out" by (rule dfs_tree_returns)
next
  fix out
  assume "dfs_tree (Suc depth) h node pfx = Inr out"
  then have "foldl (dfs_loop_body (\<lambda>c p. dfs_tree depth h c p) pfx (length cs))
               (Inr (pfx @ name (h node) @ (if is_dir (h node) then ''/'' @ [CHR 0x0A] else [CHR 0x0A])))
               (enumerate 0 cs) = Inr out"
    by (simp add: Let_def cs_def)
  from dfs_loop_Inr[OF this] obtain outs where o: "length outs = length cs"
    "out = (pfx @ name (h node) @ (if is_dir (h node) then ''/'' @ [CHR 0x0A] else [CHR 0x0A])) @ concat outs"
    "\<forall>i<length cs. dfs_tree depth h (cs ! i) (pfx @ (if 0 + i < length cs - 1 then ''|  '' else ''   '')) = Inr (outs ! i)"
    by blast
  have "\<forall>i<length cs. dfs_tree depth h (cs ! i) (pfx @ (if Suc i = length cs then ''   '' else ''|  '')) = Inr (outs ! i)"
  proof (intro allI impI)
    fix i assume i: "i < length cs"
    then have "(0 + i < length cs - 1) = (Suc i \<noteq> length cs)" by auto
    with o(3) i show "dfs_tree depth h (cs ! i) (pfx @ (if Suc i = length cs then ''   '' else ''|  '')) = Inr (outs ! i)"
      by auto
  qed
  with o(1,2) show "\<exists>outs. length outs = length cs \<and>
           out = pfx @ name (h node) @ (if is_dir (h node) then ''/'' else []) @ [CHR 0x0A] @ concat outs \<and>
           (\<forall>i<length cs.
              dfs_tree depth h (cs ! i) (pfx @ (if Suc i = length cs then ''   '' else ''|  '')) = Inr (outs ! i))"
    by (intro exI[of _ outs]) simp
next
  show "mset cs = mset (map snd (children (h node)))" by (simp add: cs_def)
next
  fix i j assume "i < j \<and> j < length cs"
  then show "is_dir (h (cs ! j)) \<Longrightarrow> is_dir (h (cs ! i))"
    using sorted_children_order[OF cs_def[THEN meta_eq_to_obj_eq], of i j] by simp
next
  fix i j assume "i < j \<and> j < length cs" and "is_dir (h (cs ! i)) = is_dir (h (cs ! j))"
  then show "name (h (cs ! i)) \<le> name (h (cs ! j))"
    using sorted_children_order[OF cs_def[THEN meta_eq_to_obj_eq], of i j] by simp
qed

theorem dfs_tree_render_witness:
  "depth_ok (heap test_App) 0 (Suc 2) \<and>
   dfs_tree (Suc 2) (heap test_App) 0 [] = Inr test_render \<and>
   sort_key (\<lambda>n. (\<not> is_dir (heap test_App n), name (heap test_App n))) (map snd (children (heap test_App 0))) = [1, 4, 6] \<and>
   (\<exists>outs. length outs = 3 \<and>
      test_render = name (heap test_App 0) @ (if is_dir (heap test_App 0) then ''/'' else []) @ [CHR 0x0A] @ concat outs \<and>
      dfs_tree 2 (heap test_App) 1 ''|  '' = Inr (outs ! 0) \<and>
      dfs_tree 2 (heap test_App) 4 ''|  '' = Inr (outs ! 1) \<and>
      dfs_tree 2 (heap test_App) 6 ''   '' = Inr (outs ! 2))"
proof -
  have a: "depth_ok (heap test_App) 0 (Suc 2)" by code_simp
  have b: "dfs_tree (Suc 2) (heap test_App) 0 [] = Inr test_render" by code_simp
  have c: "sort_key (\<lambda>n. (\<not> is_dir (heap test_App n), name (heap test_App n))) (map snd (children (heap test_App 0))) = [1, 4, 6]"
    by code_simp
  from dfs_tree_render[where h = "heap test_App" and node = 0 and pfx = "[]" and depth = 2] b
  obtain outs where o: "length outs = length [1::nat, 4, 6]"
    "test_render = [] @ name (heap test_App 0) @ (if is_dir (heap test_App 0) then ''/'' else []) @ [CHR 0x0A] @ concat outs"
    "\<forall>i<length [1::nat, 4, 6]. dfs_tree 2 (heap test_App) ([1, 4, 6] ! i) ([] @ (if Suc i = length [1::nat, 4, 6] then ''   '' else ''|  '')) = Inr (outs ! i)"
    unfolding c by blast
  from o(3) have d: "dfs_tree 2 (heap test_App) 1 ''|  '' = Inr (outs ! 0)"
    "dfs_tree 2 (heap test_App) 4 ''|  '' = Inr (outs ! 1)"
    "dfs_tree 2 (heap test_App) 6 ''   '' = Inr (outs ! 2)"
    by (auto dest: spec[of _ 0] spec[of _ 1] spec[of _ 2])
  show ?thesis
    apply (intro conjI a b c exI[of _ outs])
    using o(1,2) d by simp_all
qed

text \<open>The rendering of the test archive, as the repository's test expects it.\<close>

lemma tree_test_root:
  "map_sum id fst (tree_cmd 100 test_App []) =
     Inr test_render"
  by code_simp

section \<open>The dispatcher\<close>

lemma tree_cmd_raises: "tree_cmd depth s arg = Inl e \<Longrightarrow> e = RecursionError"
  by (auto simp: tree_cmd_def Let_def split: option.splits sum.splits dest: dfs_tree_raises)

lemma mv_cmd_raises: "mv_cmd s arg = Inl e \<Longrightarrow> \<exists>k. e = KeyError k"
  by (auto simp: mv_cmd_def Let_def pop_def split: list.splits option.splits sum.splits if_splits)

lemma map_of_commands:
  "map_of (commands depth) cmd =
     (if cmd = ''ls'' then Some (\<lambda>s arg. Inr (ls_cmd s arg, s))
      else if cmd = ''cd'' then Some (\<lambda>s arg. Inr (cd_cmd s arg))
      else if cmd = ''mv'' then Some mv_cmd
      else if cmd = ''tree'' then Some (tree_cmd depth)
      else if cmd = ''exit'' then Some exit_cmd
      else None)"
  by (simp add: commands_def)

lemma strip_ws_tokens:
  "strip_ws ''rm'' = ''rm''" "strip_ws ''mv'' = ''mv''" "strip_ws ''exit'' = ''exit''"
  by (simp_all add: strip_ws_def isspace_def)

lemma cmd_exec_exit: "strip_ws l = ''exit'' \<Longrightarrow> cmd_exec depth s (l # args) = Inl SystemExit"
  by (simp add: cmd_exec_def map_of_commands exit_cmd_def is_Exception_def)


text \<open>
  C8, as stated, fails for \<open>exit\<close>: the \<open>SystemExit\<close> raised in its handler is not an
  instance of \<open>Exception\<close>, passes the dispatcher and ends the command loop.
\<close>

theorem cmd_exec_exit_propagates: "cmd_exec 100 (init_App []) [''exit''] = Inl SystemExit"
  by (rule cmd_exec_exit) (simp add: strip_ws_tokens)


text \<open>
  C8, amended.  Empty input returns the empty string; a first token other than \<open>ls\<close>,
  \<open>cd\<close>, \<open>mv\<close>, \<open>tree\<close> and \<open>exit\<close> returns \<open>Unknown command: <name>\<close>; an exception
  that is an instance of \<open>Exception\<close> raised in a handler becomes the string
  \<open>Error: <message>\<close> and the state is the one before the command; the only exception the
  dispatcher lets through is the \<open>SystemExit\<close> of \<open>exit\<close>.
\<close>

theorem cmd_exec_dispatch:
  "(lines = [] \<or> strip_ws (hd lines) = [] \<longrightarrow> cmd_exec depth s lines = Inr ([], s)) \<and>
   (strip_ws l \<noteq> [] \<and> strip_ws l \<notin> {''ls'', ''cd'', ''mv'', ''tree'', ''exit''} \<longrightarrow>
      cmd_exec depth s (l # args) = Inr (''Unknown command: '' @ strip_ws l, s)) \<and>
   (\<forall>handler e. strip_ws l \<noteq> [] \<and> map_of (commands depth) (strip_ws l) = Some handler \<and>
      handler s args = Inl e \<and> is_Exception e \<longrightarrow>
      cmd_exec depth s (l # args) = Inr (''Error: '' @ str_exn e, s)) \<and>
   (\<forall>e. cmd_exec depth s (l # args) = Inl e \<longrightarrow> e = SystemExit \<and> strip_ws l = ''exit'') \<and>
   (strip_ws l = ''exit'' \<longrightarrow> cmd_exec depth s (l # args) = Inl SystemExit)"
proof (intro conjI impI allI)
  assume "lines = [] \<or> strip_ws (hd lines) = []"
  then show "cmd_exec depth s lines = Inr ([], s)"
    by (cases lines) (auto simp: cmd_exec_def)
next
  assume "strip_ws l \<noteq> [] \<and> strip_ws l \<notin> {''ls'', ''cd'', ''mv'', ''tree'', ''exit''}"
  then show "cmd_exec depth s (l # args) = Inr (''Unknown command: '' @ strip_ws l, s)"
    by (simp add: cmd_exec_def map_of_commands)
next
  fix handler e
  assume "strip_ws l \<noteq> [] \<and> map_of (commands depth) (strip_ws l) = Some handler \<and>
      handler s args = Inl e \<and> is_Exception e"
  then show "cmd_exec depth s (l # args) = Inr (''Error: '' @ str_exn e, s)"
    by (simp add: cmd_exec_def)
next
  fix e
  assume a: "cmd_exec depth s (l # args) = Inl e"
  then have ne: "strip_ws l \<noteq> []" by (auto simp: cmd_exec_def)
  from a ne obtain handler where h: "map_of (commands depth) (strip_ws l) = Some handler"
    and r: "handler s args = Inl e" and x: "\<not> is_Exception e"
    by (auto simp: cmd_exec_def Let_def split: option.splits sum.splits if_splits)
  from x have e: "e = SystemExit" by (simp add: is_Exception_def)
  have "strip_ws l = ''exit''"
  proof (rule ccontr)
    assume n: "strip_ws l \<noteq> ''exit''"
    from h r n e show False
      using mv_cmd_raises[of s args e] tree_cmd_raises[of depth s args e]
      by (auto simp: map_of_commands split: if_splits)
  qed
  with e show "e = SystemExit" and "strip_ws l = ''exit''" by simp_all
next
  assume "strip_ws l = ''exit''"
  then show "cmd_exec depth s (l # args) = Inl SystemExit"
    by (simp add: cmd_exec_def map_of_commands exit_cmd_def is_Exception_def)
qed


theorem cmd_exec_dispatch_witness:
  "cmd_exec 100 (init_App []) [] = Inr ([], init_App []) \<and>
   cmd_exec 100 (init_App []) [''rm'', ''x''] = Inr (''Unknown command: rm'', init_App []) \<and>
   cmd_exec 100 (init_App []) [''mv'', ''/'', ''x''] = Inr (''Error: '' @ [CHR 0x27, CHR 0x27], init_App []) \<and>
   cmd_exec 100 (init_App []) [''exit''] = Inl SystemExit"
proof -
  have "case mv_cmd (init_App []) [''/'', ''x''] of Inl e \<Rightarrow> e = KeyError [] | Inr _ \<Rightarrow> False" by code_simp
  then have mv: "mv_cmd (init_App []) [''/'', ''x''] = Inl (KeyError [])" by (simp split: sum.splits)
  have e: "is_Exception (KeyError [])" by (simp add: is_Exception_def)
  note s1 = strip_ws_tokens
  show ?thesis
    using cmd_exec_dispatch[of "[]" 100 "init_App []" "''rm''" "[''x'']"]
          cmd_exec_dispatch[of "[]" 100 "init_App []" "''mv''" "[''/'', ''x'']"]
          cmd_exec_dispatch[of "[]" 100 "init_App []" "''exit''" "[]"]
          mv e s1
    by (simp add: map_of_commands)
qed

section \<open>Paths in the store\<close>

lemma last_split: "s \<noteq> [] \<Longrightarrow> last s \<noteq> sep \<Longrightarrow> last (split sep s) \<noteq> []"
proof (induction s)
  case Nil
  then show ?case by simp
next
  case (Cons c cs)
  show ?case
  proof (cases "cs = []")
    case True
    with Cons.prems show ?thesis by simp
  next
    case False
    with Cons have "last (split sep cs) \<noteq> []" by simp
    then show ?thesis using split_not_Nil[of sep cs]
      by (auto split: list.splits)
  qed
qed

lemma hd_split: "s \<noteq> [] \<Longrightarrow> hd s \<noteq> sep \<Longrightarrow> hd (split sep s) \<noteq> []"
  by (cases s) (auto split: list.splits)

lemma last_split_strip: "strip c s \<noteq> [] \<Longrightarrow> last (split c (strip c s)) \<noteq> []"
  using strip_ends[of c s] last_split[of "strip c s" c] by blast

lemma hd_split_strip: "strip c s \<noteq> [] \<Longrightarrow> hd (split c (strip c s)) \<noteq> []"
  using strip_ends[of c s] hd_split[of "strip c s" c] by blast

lemma find_butlast_last:
  "ps \<noteq> [] \<Longrightarrow> last ps \<noteq> [] \<Longrightarrow>
   find_node_by_path h a ps =
     (case find_node_by_path h a (butlast ps) of None \<Rightarrow> None | Some b \<Rightarrow> get_child h b (last ps))"
  using find_append[of h a "butlast ps" "[last ps]"]
  by (auto split: option.splits)

lemma get_child_mem: "get_child h a k = Some c \<Longrightarrow> (k, c) \<in> set (children (h a))"
  by (simp add: get_child_def map_of_SomeD)

lemma get_child_None: "get_child h a k = None \<longleftrightarrow> k \<notin> fst ` set (children (h a))"
  by (simp add: get_child_def map_of_eq_None_iff)

lemma find_reachable:
  "find_node_by_path h a ps = Some b \<Longrightarrow> reachable h r a \<Longrightarrow> reachable h r b"
  by (induction ps arbitrary: a)
     (auto split: if_splits option.splits dest!: get_child_mem intro: reachable_child)


lemma find_mono:
  assumes "keys_distinct h" and "\<And>a. set (children (h1 a)) \<subseteq> set (children (h a))"
  shows "find_node_by_path h1 a ps = Some b \<Longrightarrow> find_node_by_path h a ps = Some b"
proof (induction ps arbitrary: a)
  case Nil
  then show ?case by simp
next
  case (Cons p ps)
  show ?case
  proof (cases "p = []")
    case True
    with Cons show ?thesis by simp
  next
    case False
    with Cons.prems obtain c where c: "get_child h1 a p = Some c" "find_node_by_path h1 c ps = Some b"
      by (auto split: option.splits)
    from c(1) have "(p, c) \<in> set (children (h a))" using assms(2) get_child_mem by blast
    with assms(1) have "get_child h a p = Some c"
      by (simp add: keys_distinct_def get_child_def)
    with c(2) False show ?thesis by (simp add: Cons.IH)
  qed
qed

lemma update_fresh_key: "k \<notin> fst ` set xs \<Longrightarrow> AList.update k v xs = xs @ [(k, v)]"
  by (induction xs) auto

lemma paths_invD:
  assumes "paths_inv h n r pf"
  shows "r < n" "pf r = []" "inj_on pf {..<n}" "keys_distinct h"
    and "\<And>a k c. (k, c) \<in> set (children (h a)) \<Longrightarrow> a < n \<and> c < n \<and> pf c = pf a @ [k] \<and> name (h c) = k"
    and "\<And>c. c < n \<Longrightarrow> c \<noteq> r \<Longrightarrow> \<exists>a k. (k, c) \<in> set (children (h a))"
  using assms unfolding paths_inv_def by blast+

lemma paths_inv_inj: "paths_inv h n r pf \<Longrightarrow> a < n \<Longrightarrow> b < n \<Longrightarrow> pf a = pf b \<Longrightarrow> a = b"
  unfolding paths_inv_def inj_on_def by auto

lemma walk_append:
  "walk h a (p @ q) = (case walk h a p of None \<Rightarrow> None | Some b \<Rightarrow> walk h b q)"
  by (induction p arbitrary: a) (auto split: option.splits)

lemma walk_snoc:
  "walk h a (p @ [k]) = (case walk h a p of None \<Rightarrow> None | Some b \<Rightarrow> get_child h b k)"
  by (simp add: walk_append split: option.splits)

lemma get_child_Some_iff:
  "keys_distinct h \<Longrightarrow> get_child h a k = Some c \<longleftrightarrow> (k, c) \<in> set (children (h a))"
  by (auto simp: keys_distinct_def get_child_def dest: map_of_SomeD)

lemma paths_inv_walk:
  assumes inv: "paths_inv h n r pf"
  shows "walk h r p = Some a \<longleftrightarrow> a < n \<and> pf a = p"
proof (induction p arbitrary: a rule: rev_induct)
  case Nil
  show ?case
  proof
    assume "walk h r [] = Some a"
    with paths_invD(1,2)[OF inv] show "a < n \<and> pf a = []" by auto
  next
    assume a: "a < n \<and> pf a = []"
    with paths_invD(1,2)[OF inv] have "a = r" by (auto intro: paths_inv_inj[OF inv])
    then show "walk h r [] = Some a" by simp
  qed
next
  case (snoc k p)
  show ?case
  proof
    assume "walk h r (p @ [k]) = Some a"
    then obtain b where b: "walk h r p = Some b" "get_child h b k = Some a"
      by (auto simp: walk_snoc split: option.splits)
    from b(2) have "(k, a) \<in> set (children (h b))" by (rule get_child_mem)
    from paths_invD(5)[OF inv this] snoc.IH[of b] b(1)
    show "a < n \<and> pf a = p @ [k]" by simp
  next
    assume a: "a < n \<and> pf a = p @ [k]"
    with paths_invD(2)[OF inv] have "a \<noteq> r" by auto
    with a paths_invD(6)[OF inv] obtain b k' where m: "(k', a) \<in> set (children (h b))" by blast
    from paths_invD(5)[OF inv m] a have b: "b < n" "pf b = p" "k' = k" by auto
    with snoc.IH[of b] have "walk h r p = Some b" by simp
    moreover from m b(3) paths_invD(4)[OF inv] have "get_child h b k = Some a"
      by (simp add: get_child_Some_iff)
    ultimately show "walk h r (p @ [k]) = Some a" by (simp add: walk_snoc)
  qed
qed

lemma paths_inv_tree_inv:
  assumes inv: "paths_inv h n r pf"
  shows "tree_inv h r"
proof -
  note m = paths_invD(5)[OF inv]
  have "names_ok h" unfolding names_ok_def using m by blast
  moreover have "one_parent h"
    unfolding one_parent_def
  proof (intro allI impI)
    fix a b k k' c
    assume "(k, c) \<in> set (children (h a)) \<and> (k', c) \<in> set (children (h b))"
    with m[of k c a] m[of k' c b] have "a < n" "b < n" "pf a @ [k] = pf b @ [k']" by auto
    then show "a = b \<and> k = k'" by (auto intro: paths_inv_inj[OF inv])
  qed
  moreover have "root_top h r"
    unfolding root_top_def using m paths_invD(2)[OF inv] by fastforce
  ultimately show ?thesis using paths_invD(4)[OF inv] by (simp add: tree_inv_def)
qed

text \<open>In a tree every node has at most one key path from the root.\<close>

lemma tree_inv_unique_path:
  assumes "tree_inv h r"
  shows "walk h r p = Some a \<Longrightarrow> walk h r q = Some a \<Longrightarrow> p = q"
proof (induction p arbitrary: q a rule: rev_induct)
  case Nil
  then have a: "a = r" by simp
  show ?case
  proof (cases q rule: rev_cases)
    case Nil
    then show ?thesis by simp
  next
    case (snoc q' k)
    with Nil.prems(2) a obtain b where "get_child h b k = Some r"
      by (auto simp: walk_snoc split: option.splits)
    then have "(k, r) \<in> set (children (h b))" by (rule get_child_mem)
    with assms show ?thesis by (simp add: tree_inv_def root_top_def)
  qed
next
  case (snoc k p)
  from snoc.prems(1) obtain b where b: "walk h r p = Some b" "(k, a) \<in> set (children (h b))"
    by (auto simp: walk_snoc split: option.splits dest: get_child_mem)
  show ?case
  proof (cases q rule: rev_cases)
    case Nil
    with snoc.prems(2) have "a = r" by simp
    with b(2) assms show ?thesis by (simp add: tree_inv_def root_top_def)
  next
    case (snoc q' k')
    with snoc.prems(2) obtain b' where b': "walk h r q' = Some b'" "(k', a) \<in> set (children (h b'))"
      by (auto simp: walk_snoc split: option.splits dest: get_child_mem)
    from assms b(2) b'(2) have "b = b'" "k = k'" unfolding tree_inv_def one_parent_def by blast+
    with snoc.IH[OF b(1), of q'] b'(1) snoc show ?thesis by simp
  qed
qed

section \<open>Tree construction\<close>

lemma alloc_children:
  "cur \<noteq> n \<Longrightarrow> part \<notin> fst ` set (children (h cur)) \<Longrightarrow>
   children (alloc_child h n cur part d a) =
     (if a = cur then children (h cur) @ [(part, n)] else if a = n then [] else children (h a))"
  by (simp add: alloc_child_def add_child_def new_Node_def update_fresh_key)

lemma alloc_name: "cur \<noteq> n \<Longrightarrow> name (alloc_child h n cur part d a) = (if a = n then part else name (h a))"
  by (simp add: alloc_child_def add_child_def new_Node_def)

lemma alloc_is_dir: "cur \<noteq> n \<Longrightarrow> is_dir (alloc_child h n cur part d a) = (if a = n then d else is_dir (h a))"
  by (simp add: alloc_child_def add_child_def new_Node_def)

lemma paths_inv_fresh_empty: "paths_inv h n r pf \<Longrightarrow> n \<le> a \<Longrightarrow> children (h a) = []"
  using paths_invD(5)[of h n r pf _ _ a] by (cases "children (h a)") fastforce+

lemma alloc_mem:
  assumes inv: "paths_inv h n r pf" and cur: "cur < n" and fresh: "part \<notin> fst ` set (children (h cur))"
  shows "(k, c) \<in> set (children (alloc_child h n cur part d a)) \<longleftrightarrow>
           (k, c) \<in> set (children (h a)) \<or> (a = cur \<and> k = part \<and> c = n)"
  using cur fresh paths_inv_fresh_empty[OF inv, of n]
  by (auto simp: alloc_children)

lemma alloc_paths_inv:
  assumes inv: "paths_inv h n r pf" and cur: "cur < n" and fresh: "part \<notin> fst ` set (children (h cur))"
  shows "paths_inv (alloc_child h n cur part d) (Suc n) r (pf(n := pf cur @ [part]))"
proof -
  let ?h = "alloc_child h n cur part d" and ?pf = "pf(n := pf cur @ [part])"
  note mem = alloc_mem[OF inv cur fresh]
  note oldD = paths_invD(5)[OF inv]
  have r: "r < n" "pf r = []" using paths_invD(1,2)[OF inv] by auto
  have newpath: "pf a \<noteq> pf cur @ [part]" if "a < n" for a
  proof
    assume e: "pf a = pf cur @ [part]"
    with r have "a \<noteq> r" by auto
    with paths_invD(6)[OF inv that] obtain b k where m: "(k, a) \<in> set (children (h b))" by blast
    from oldD[OF m] e have "b < n" "pf b = pf cur" "k = part" by auto
    with cur have "b = cur" by (auto intro: paths_inv_inj[OF inv])
    with m \<open>k = part\<close> fresh show False by force
  qed
  have "inj_on ?pf {..<Suc n}"
    unfolding inj_on_def
  proof (intro ballI impI)
    fix a b assume ab: "a \<in> {..<Suc n}" "b \<in> {..<Suc n}" "?pf a = ?pf b"
    show "a = b"
    proof (cases "a = n \<or> b = n")
      case True
      with ab newpath[of a] newpath[of b] show ?thesis
        by (cases "a = n"; cases "b = n") (auto simp: less_Suc_eq)
    next
      case False
      with ab show ?thesis by (auto intro: paths_inv_inj[OF inv] simp: less_Suc_eq)
    qed
  qed
  moreover have "keys_distinct ?h"
    using paths_invD(4)[OF inv] cur fresh
    by (auto simp: keys_distinct_def alloc_children)
  moreover have "\<forall>a k c. (k, c) \<in> set (children (?h a)) \<longrightarrow>
      a < Suc n \<and> c < Suc n \<and> ?pf c = ?pf a @ [k] \<and> name (?h c) = k"
  proof (intro allI impI)
    fix a k c assume "(k, c) \<in> set (children (?h a))"
    then consider (old) "(k, c) \<in> set (children (h a))" | (new) "a = cur" "k = part" "c = n"
      by (auto simp: mem)
    then show "a < Suc n \<and> c < Suc n \<and> ?pf c = ?pf a @ [k] \<and> name (?h c) = k"
    proof cases
      case old
      from oldD[OF this] cur show ?thesis by (auto simp: alloc_name)
    next
      case new
      with cur show ?thesis by (auto simp: alloc_name)
    qed
  qed
  moreover have "\<forall>c<Suc n. c \<noteq> r \<longrightarrow> (\<exists>a k. (k, c) \<in> set (children (?h a)))"
  proof (intro allI impI)
    fix c assume c: "c < Suc n" "c \<noteq> r"
    show "\<exists>a k. (k, c) \<in> set (children (?h a))"
    proof (cases "c = n")
      case True
      then show ?thesis by (auto simp: mem)
    next
      case False
      with c have "c < n" by simp
      from paths_invD(6)[OF inv this c(2)] show ?thesis by (auto simp: mem)
    qed
  qed
  ultimately show ?thesis
    using r unfolding paths_inv_def by auto
qed

lemma alloc_node_at:
  assumes inv: "paths_inv h n r pf" and cur: "cur < n" and fresh: "part \<notin> fst ` set (children (h cur))"
  shows "node_at (alloc_child h n cur part d) r p =
           (if p = pf cur @ [part] then Some (part, d) else node_at h r p)"
proof -
  let ?h = "alloc_child h n cur part d" and ?pf = "pf(n := pf cur @ [part])"
  note w = paths_inv_walk[OF inv] and w' = paths_inv_walk[OF alloc_paths_inv[OF inv cur fresh, of d]]
  show ?thesis
  proof (cases "p = pf cur @ [part]")
    case True
    have "walk ?h r p = Some n" by (simp add: w' True)
    with True cur show ?thesis by (simp add: node_at_def alloc_name alloc_is_dir)
  next
    case False
    have "walk ?h r p = walk h r p"
    proof (cases "walk h r p")
      case None
      have "walk ?h r p \<noteq> Some a" for a
      proof
        assume "walk ?h r p = Some a"
        then have "a < Suc n" "?pf a = p" by (simp_all add: w')
        with False have "a < n \<and> pf a = p" by (cases "a = n") (auto simp: less_Suc_eq)
        with None show False by (simp add: w[symmetric])
      qed
      with None show ?thesis by (cases "walk ?h r p") auto
    next
      case (Some a)
      then have "a < n" "pf a = p" by (simp_all add: w)
      then have "walk ?h r p = Some a" by (auto simp: w')
      with Some show ?thesis by simp
    qed
    moreover have "a < n \<Longrightarrow> name (?h a) = name (h a) \<and> is_dir (?h a) = is_dir (h a)" for a
      using cur by (simp add: alloc_name alloc_is_dir)
    moreover have "walk h r p = Some a \<Longrightarrow> a < n" for a by (simp add: w)
    ultimately show ?thesis using False
      by (cases "walk h r p") (auto simp: node_at_def)
  qed
qed

lemma walk_prefix: "walk h r (p @ q) = Some a \<Longrightarrow> \<exists>b. walk h r p = Some b"
  by (auto simp: walk_append split: option.splits)

lemma add_parts_Cons:
  "add_parts isd len ((idx, part) # rest) (h, n) cur =
     (if part \<notin> fst ` set (children (h cur))
      then (case get_child (alloc_child h n cur part (idx \<noteq> len - 1 \<or> isd)) cur part of
              None \<Rightarrow> (alloc_child h n cur part (idx \<noteq> len - 1 \<or> isd), Suc n)
            | Some c \<Rightarrow> add_parts isd len rest (alloc_child h n cur part (idx \<noteq> len - 1 \<or> isd), Suc n) c)
      else (case get_child h cur part of
              None \<Rightarrow> (h, n)
            | Some c \<Rightarrow> add_parts isd len rest (h, n) c))"
  by (simp add: alloc_child_def Let_def split: option.splits)

lemma add_parts_inv:
  assumes "paths_inv h n r pf" and "cur < n" and "pf cur = pre" and "length pre + length rest = len"
  shows "\<exists>h' n' pf'. add_parts isd len (enumerate (length pre) rest) (h, n) cur = (h', n') \<and>
           paths_inv h' n' r pf' \<and>
           (\<forall>p. node_at h' r p =
              (case node_at h r p of
                 Some x \<Rightarrow> Some x
               | None \<Rightarrow> if prefix p (pre @ rest) then Some (last p, p \<noteq> pre @ rest \<or> isd) else None))"
  using assms
proof (induction rest arbitrary: h n cur pf pre)
  case Nil
  have "node_at h r p =
      (case node_at h r p of Some x \<Rightarrow> Some x
       | None \<Rightarrow> if prefix p (pre @ []) then Some (last p, p \<noteq> pre @ [] \<or> isd) else None)" for p
  proof (cases "node_at h r p")
    case None
    have "\<not> prefix p pre"
    proof
      assume "prefix p pre"
      then obtain q where "pre = p @ q" by (auto simp: prefix_def)
      moreover have "walk h r pre = Some cur"
        using Nil.prems by (simp add: paths_inv_walk)
      ultimately obtain b where "walk h r p = Some b" using walk_prefix by blast
      with None show False by (simp add: node_at_def)
    qed
    with None show ?thesis by simp
  next
    case (Some x)
    then show ?thesis by simp
  qed
  with Nil.prems(1) show ?case by auto
next
  case (Cons part rest)
  note inv = Cons.prems(1) and cur = Cons.prems(2) and pre = Cons.prems(3) and len = Cons.prems(4)
  have wcur: "walk h r pre = Some cur" using inv cur pre by (simp add: paths_inv_walk)
  have en: "enumerate (length pre) (part # rest) = (length pre, part) # enumerate (length (pre @ [part])) rest"
    by simp
  have full: "(pre @ [part]) @ rest = pre @ part # rest" by simp
  have len': "length (pre @ [part]) + length rest = len" using len by simp
  show ?case
  proof (cases "part \<in> fst ` set (children (h cur))")
    case True
    then obtain c where m: "(part, c) \<in> set (children (h cur))" by auto
    with paths_invD(4)[OF inv] have g: "get_child h cur part = Some c"
      by (simp add: get_child_Some_iff)
    from paths_invD(5)[OF inv m] pre have c: "c < n" "pf c = pre @ [part]" by auto
    from Cons.IH[OF inv c len']
    show ?thesis unfolding en add_parts_Cons full using True g by simp
  next
    case False
    let ?d = "length pre \<noteq> len - 1 \<or> isd"
    let ?h1 = "alloc_child h n cur part ?d" and ?pf1 = "pf(n := pf cur @ [part])"
    have inv1: "paths_inv ?h1 (Suc n) r ?pf1" using inv cur False by (rule alloc_paths_inv)
    have "(part, n) \<in> set (children (?h1 cur))" by (simp add: alloc_mem[OF inv cur False])
    with paths_invD(4)[OF inv1] have g: "get_child ?h1 cur part = Some n"
      by (simp add: get_child_Some_iff)
    have n: "n < Suc n" "?pf1 n = pre @ [part]" using pre by auto
    from Cons.IH[OF inv1 n len'] obtain h' n' pf' where
      res: "add_parts isd len (enumerate (length (pre @ [part])) rest) (?h1, Suc n) n = (h', n')"
      and inv': "paths_inv h' n' r pf'"
      and at: "\<forall>p. node_at h' r p =
              (case node_at ?h1 r p of Some x \<Rightarrow> Some x
               | None \<Rightarrow> if prefix p (pre @ part # rest) then Some (last p, p \<noteq> pre @ part # rest \<or> isd) else None)"
      unfolding full by blast
    have fresh: "node_at h r (pre @ [part]) = None"
      using wcur False by (simp add: node_at_def walk_snoc get_child_None)
    have d: "?d = (pre @ [part] \<noteq> pre @ part # rest \<or> isd)"
      using len by auto
    have "node_at h' r p =
              (case node_at h r p of Some x \<Rightarrow> Some x
               | None \<Rightarrow> if prefix p (pre @ part # rest) then Some (last p, p \<noteq> pre @ part # rest \<or> isd) else None)" for p
    proof (cases "p = pre @ [part]")
      case True
      have "prefix (pre @ [part]) (pre @ part # rest)" by simp
      with True fresh d show ?thesis
        by (simp add: at alloc_node_at[OF inv cur False] pre)
    next
      case False
      then show ?thesis
        by (simp add: at alloc_node_at[OF inv cur \<open>part \<notin> fst ` set (children (h cur))\<close>] pre)
    qed
    with res inv' show ?thesis
      unfolding en add_parts_Cons using False g by auto
  qed
qed

lemma add_member_inv:
  assumes "paths_inv h n r pf"
  shows "\<exists>h' n' pf'. add_member r (h, n) m = (h', n') \<and> paths_inv h' n' r pf' \<and>
           node_at h' r = ins_member (node_at h r) m"
proof -
  from paths_invD(1,2)[OF assms] have r: "r < n" "pf r = []" by auto
  have "length ([] :: string list) + length (parts_of m) = length (parts_of m)" by simp
  from add_parts_inv[OF assms r this, of "snd m"] obtain h' n' pf' where
    res: "add_parts (snd m) (length (parts_of m)) (enumerate 0 (parts_of m)) (h, n) r = (h', n')"
    and inv: "paths_inv h' n' r pf'"
    and at: "\<And>p. node_at h' r p =
              (case node_at h r p of Some x \<Rightarrow> Some x
               | None \<Rightarrow> if prefix p (parts_of m) then Some (last p, p \<noteq> parts_of m \<or> snd m) else None)"
    by (auto cong: option.case_cong)
  from at have "node_at h' r = ins_member (node_at h r) m"
    by (intro ext) (simp add: ins_member_def)
  with res inv show ?thesis
    by (intro exI[of _ h'] exI[of _ n'] exI[of _ pf']) (simp add: add_member_def Let_def parts_of_def)
qed

lemma foldl_add_member_inv:
  assumes "paths_inv h n r pf"
  shows "\<exists>h' n' pf'. foldl (add_member r) (h, n) ms = (h', n') \<and> paths_inv h' n' r pf' \<and>
           node_at h' r = foldl ins_member (node_at h r) ms"
  using assms
proof (induction ms arbitrary: h n pf)
  case Nil
  then show ?case by auto
next
  case (Cons m ms)
  from add_member_inv[OF Cons.prems, of m] obtain h1 n1 pf1 where
    s: "add_member r (h, n) m = (h1, n1)" "paths_inv h1 n1 r pf1" "node_at h1 r = ins_member (node_at h r) m"
    by blast
  from Cons.IH[OF s(2)] s(1,3) show ?case by simp
qed

lemma initial_paths_inv: "paths_inv (empty_heap(0 := new_Node ''/'' True)) (Suc 0) 0 (\<lambda>_. [])"
  by (simp add: paths_inv_def keys_distinct_def empty_heap_def new_Node_def inj_on_def)

lemma initial_node_at: "node_at (empty_heap(0 := new_Node ''/'' True)) 0 = root_only"
proof
  fix p
  show "node_at (empty_heap(0 := new_Node ''/'' True)) 0 p = root_only p"
    by (cases p) (simp_all add: node_at_def root_only_def get_child_def empty_heap_def new_Node_def)
qed

lemma build_tree_inv:
  "\<exists>n pf. paths_inv (fst (build_tree ms)) n (snd (build_tree ms)) pf \<and>
          node_at (fst (build_tree ms)) (snd (build_tree ms)) = foldl ins_member root_only ms"
proof -
  from foldl_add_member_inv[OF initial_paths_inv, of ms] obtain h' n' pf' where
    "foldl (add_member 0) (empty_heap(0 := new_Node ''/'' True), Suc 0) ms = (h', n')"
    "paths_inv h' n' 0 pf'"
    "node_at h' 0 = foldl ins_member root_only ms"
    unfolding initial_node_at by blast
  then show ?thesis
    by (intro exI[of _ n'] exI[of _ pf']) (simp add: build_tree_def Let_def)
qed

lemma init_App_simps:
  "heap (init_App ms) = fst (build_tree ms)" "root_node (init_App ms) = snd (build_tree ms)"
  "cur_dir (init_App ms) = ''/''"
  by (simp_all add: init_App_def split: prod.splits)

lemma foldl_ins_member:
  "foldl ins_member A ms p =
     (case A p of
        Some x \<Rightarrow> Some x
      | None \<Rightarrow> (case List.find (\<lambda>m. prefix p (parts_of m)) ms of
                   None \<Rightarrow> None
                 | Some m \<Rightarrow> Some (last p, p \<noteq> parts_of m \<or> snd m)))"
  by (induction ms arbitrary: A) (auto simp: ins_member_def split: option.splits)

lemma find_set: "List.find P xs = Some x \<Longrightarrow> x \<in> set xs \<and> P x"
  by (auto simp: find_Some_iff)

lemma built_names:
  "map_option fst (foldl ins_member root_only ms p) =
     (if p = [] then Some ''/'' else if \<exists>m \<in> set ms. prefix p (parts_of m) then Some (last p) else None)"
proof (cases "List.find (\<lambda>m. prefix p (parts_of m)) ms")
  case None
  then have "\<not> (\<exists>m \<in> set ms. prefix p (parts_of m))" unfolding find_None_iff by blast
  with None show ?thesis by (simp add: foldl_ins_member root_only_def)
next
  case (Some m)
  then have "\<exists>m \<in> set ms. prefix p (parts_of m)" by (auto dest: find_set)
  with Some show ?thesis by (simp add: foldl_ins_member root_only_def)
qed

lemma find_None_set: "set xs = set ys \<Longrightarrow> List.find P xs = None \<Longrightarrow> List.find P ys = None"
  by (simp add: find_None_iff)

lemma flags_consistentD:
  assumes "flags_consistent ms" and "m \<in> set ms" and "m' \<in> set ms"
    and "prefix p (parts_of m)" and "prefix p (parts_of m')"
  shows "(p \<noteq> parts_of m \<or> snd m) = (p \<noteq> parts_of m' \<or> snd m')"
proof -
  have a: "parts_of y = parts_of x \<and> \<not> snd y"
    if "x \<in> set ms" "y \<in> set ms" "\<not> snd x" "prefix (parts_of x) (parts_of y)" for x y
    using assms(1) that unfolding flags_consistent_def by blast
  show ?thesis
  proof (cases "p = parts_of m \<and> \<not> snd m")
    case True
    with a[OF assms(2,3)] assms(5) show ?thesis by simp
  next
    case False
    show ?thesis
    proof (cases "p = parts_of m' \<and> \<not> snd m'")
      case True
      with a[OF assms(3,2)] assms(4) show ?thesis by simp
    next
      case False
      with \<open>\<not> (p = parts_of m \<and> \<not> snd m)\<close> show ?thesis by blast
    qed
  qed
qed

lemma built_flags:
  assumes "flags_consistent ms" and "set ms' = set ms"
  shows "foldl ins_member root_only ms p = foldl ins_member root_only ms' p"
proof (cases "p = []")
  case True
  then show ?thesis by (simp add: foldl_ins_member root_only_def)
next
  case False
  show ?thesis
  proof (cases "List.find (\<lambda>m. prefix p (parts_of m)) ms")
    case None
    then have "List.find (\<lambda>m. prefix p (parts_of m)) ms' = None"
      using assms(2) by (intro find_None_set[of ms ms']) simp_all
    with None False show ?thesis by (simp add: foldl_ins_member root_only_def)
  next
    case (Some m)
    then have m: "m \<in> set ms" "prefix p (parts_of m)" by (auto dest: find_set)
    have "List.find (\<lambda>m. prefix p (parts_of m)) ms' \<noteq> None"
    proof
      assume "List.find (\<lambda>m. prefix p (parts_of m)) ms' = None"
      then have "List.find (\<lambda>m. prefix p (parts_of m)) ms = None"
        using assms(2) by (intro find_None_set[of ms' ms]) simp_all
      with Some show False by simp
    qed
    then obtain m' where f': "List.find (\<lambda>m. prefix p (parts_of m)) ms' = Some m'"
      by blast
    then have m': "m' \<in> set ms" "prefix p (parts_of m')" using assms(2) by (auto dest: find_set)
    have "(p \<noteq> parts_of m \<or> snd m) = (p \<noteq> parts_of m' \<or> snd m')"
      using assms(1) m(1) m'(1) m(2) m'(2) by (rule flags_consistentD)
    with Some f' False show ?thesis by (simp add: foldl_ins_member root_only_def)
  qed
qed

text \<open>
  C2, as stated, fails: a node keeps the directory flag of the member that created it.
  The members \<open>a\<close> and \<open>a/b\<close>, neither a directory entry, give the node \<open>a\<close> the flag false
  in this order and the flag true in the other.
\<close>

theorem build_tree_order_matters:
  "mset file_first = mset (rev file_first) \<and>
   node_at (heap (init_App file_first)) (root_node (init_App file_first)) [''a''] = Some (''a'', False) \<and>
   node_at (heap (init_App (rev file_first))) (root_node (init_App (rev file_first))) [''a''] = Some (''a'', True)"
proof -
  have "node_at (heap (init_App file_first)) (root_node (init_App file_first)) [''a''] = Some (''a'', False)"
    "node_at (heap (init_App (rev file_first))) (root_node (init_App (rev file_first))) [''a''] = Some (''a'', True)"
    by code_simp+
  then show ?thesis by simp
qed

text \<open>
  C2, amended.  Building the tree from any permutation of the same members yields the same
  key paths with the same names; it also yields the same directory flags when no
  non-directory member's name is a prefix of another member's name or is also given by a
  directory member.
\<close>

theorem build_tree_permutation:
  assumes "mset ms = mset ms'"
  shows "(\<forall>p. map_option fst (node_at (heap (init_App ms)) (root_node (init_App ms)) p) =
              map_option fst (node_at (heap (init_App ms')) (root_node (init_App ms')) p)) \<and>
         (flags_consistent ms \<longrightarrow>
            (\<forall>p. node_at (heap (init_App ms)) (root_node (init_App ms)) p =
                 node_at (heap (init_App ms')) (root_node (init_App ms')) p))"
proof -
  from assms have s: "set ms' = set ms" by (metis set_mset_mset)
  from build_tree_inv[of ms] build_tree_inv[of ms'] have
    a: "node_at (heap (init_App ms)) (root_node (init_App ms)) = foldl ins_member root_only ms"
    and b: "node_at (heap (init_App ms')) (root_node (init_App ms')) = foldl ins_member root_only ms'"
    by (auto simp: init_App_simps)
  show ?thesis
    unfolding a b using built_flags[OF _ s] by (simp add: built_names s)
qed

theorem build_tree_permutation_witness:
  "mset dir_first = mset (rev dir_first) \<and> flags_consistent dir_first \<and>
   (\<forall>p. map_option fst (node_at (heap (init_App dir_first)) (root_node (init_App dir_first)) p) =
        map_option fst (node_at (heap (init_App (rev dir_first))) (root_node (init_App (rev dir_first))) p)) \<and>
   (\<forall>p. node_at (heap (init_App dir_first)) (root_node (init_App dir_first)) p =
        node_at (heap (init_App (rev dir_first))) (root_node (init_App (rev dir_first))) p)"
proof -
  have m: "mset dir_first = mset (rev dir_first)" by simp
  have f: "flags_consistent dir_first" by code_simp
  from build_tree_permutation[OF m] f show ?thesis by simp
qed

text \<open>
  C3, as stated, fails on the archive of the repository's tests: \<open>dir1\<close> is created by a
  member that is not a directory entry, gets children from the later members, and keeps
  the flag false.
\<close>

theorem build_tree_file_with_children:
  "find_node_by_path (heap test_App) (root_node test_App) [''dir1''] = Some 1 \<and>
   children (heap test_App 1) \<noteq> [] \<and> \<not> is_dir (heap test_App 1)"
  by code_simp

text \<open>Every constructed structure is a tree.\<close>

lemma init_App_tree_inv: "tree_inv (heap (init_App ms)) (root_node (init_App ms))"
  using build_tree_inv[of ms] by (auto simp: init_App_simps intro: paths_inv_tree_inv)

lemma parts_of_not_Nil: "parts_of m \<noteq> []"
  by (simp add: parts_of_def split_not_Nil)

lemma first_named_by_file_Nil: "\<not> first_named_by_file ms []"
  by (auto simp: first_named_by_file_def parts_of_not_Nil split: option.splits)

lemma built_is_dir:
  assumes "foldl ins_member root_only ms p = Some (nm, d)"
  shows "d = (\<not> first_named_by_file ms p)"
proof (cases "p = []")
  case True
  with assms show ?thesis
    by (simp add: foldl_ins_member root_only_def first_named_by_file_Nil)
next
  case False
  with assms show ?thesis
    by (auto simp: foldl_ins_member root_only_def first_named_by_file_def split: option.splits)
qed

text \<open>
  C3, amended.  After the construction every node with children is found at a key path
  from the root, and its directory flag is true unless the first member whose name begins
  with that path is a non-directory member naming exactly that path; only then is the
  flag false.  So a node that gets children has the flag true whatever the flags of the
  later members that name it, and also when a non-directory member names it after a member
  below it has created it.
\<close>

theorem build_tree_children_dirs:
  "\<forall>node. children (heap (init_App ms) node) \<noteq> [] \<longrightarrow>
     (\<exists>p. walk (heap (init_App ms)) (root_node (init_App ms)) p = Some node \<and>
          is_dir (heap (init_App ms) node) = (\<not> first_named_by_file ms p))"
proof (intro allI impI)
  fix a
  let ?h = "heap (init_App ms)" and ?r = "root_node (init_App ms)"
  assume "children (?h a) \<noteq> []"
  then obtain k c where m: "(k, c) \<in> set (children (?h a))" by (cases "children (?h a)") auto
  from build_tree_inv[of ms] obtain n pf where inv: "paths_inv ?h n ?r pf"
    and at: "node_at ?h ?r = foldl ins_member root_only ms" by (auto simp: init_App_simps)
  from paths_invD(5)[OF inv m] have "a < n" by simp
  then have wa: "walk ?h ?r (pf a) = Some a"
    using paths_inv_walk[OF inv, of "pf a" a] by blast
  then have "foldl ins_member root_only ms (pf a) = Some (name (?h a), is_dir (?h a))"
    unfolding at[symmetric] by (simp add: node_at_def)
  then have "is_dir (?h a) = (\<not> first_named_by_file ms (pf a))" by (rule built_is_dir)
  with wa show "\<exists>p. walk ?h ?r p = Some a \<and> is_dir (?h a) = (\<not> first_named_by_file ms p)"
    by blast
qed

theorem build_tree_children_dirs_witness:
  "children (heap (init_App (rev file_first)) 1) \<noteq> [] \<and>
   walk (heap (init_App (rev file_first))) (root_node (init_App (rev file_first))) [''a''] = Some 1 \<and>
   \<not> first_named_by_file (rev file_first) [''a''] \<and>
   is_dir (heap (init_App (rev file_first)) 1) \<and>
   children (heap (init_App file_first) 1) \<noteq> [] \<and>
   walk (heap (init_App file_first)) (root_node (init_App file_first)) [''a''] = Some 1 \<and>
   first_named_by_file file_first [''a''] \<and>
   \<not> is_dir (heap (init_App file_first) 1)"
proof -
  have c: "children (heap (init_App (rev file_first)) 1) \<noteq> []"
    and w: "walk (heap (init_App (rev file_first))) (root_node (init_App (rev file_first))) [''a''] = Some 1"
    and f: "\<not> first_named_by_file (rev file_first) [''a'']"
    and c': "children (heap (init_App file_first) 1) \<noteq> []"
    and w': "walk (heap (init_App file_first)) (root_node (init_App file_first)) [''a''] = Some 1"
    and f': "first_named_by_file file_first [''a'']"
    by code_simp+
  from build_tree_children_dirs[of "rev file_first"] c obtain p where
    p: "walk (heap (init_App (rev file_first))) (root_node (init_App (rev file_first))) p = Some 1"
    "is_dir (heap (init_App (rev file_first)) 1) = (\<not> first_named_by_file (rev file_first) p)" by blast
  from p(1) w have "p = [''a'']"
    using tree_inv_unique_path[OF init_App_tree_inv] by blast
  with p(2) f have d: "is_dir (heap (init_App (rev file_first)) 1)" by simp
  from build_tree_children_dirs[of file_first] c' obtain q where
    q: "walk (heap (init_App file_first)) (root_node (init_App file_first)) q = Some 1"
    "is_dir (heap (init_App file_first) 1) = (\<not> first_named_by_file file_first q)" by blast
  from q(1) w' have "q = [''a'']"
    using tree_inv_unique_path[OF init_App_tree_inv] by blast
  with q(2) f' have d': "\<not> is_dir (heap (init_App file_first) 1)" by simp
  from c w f d c' w' f' d' show ?thesis by simp
qed

lemma init_App_session_inv:
  assumes "\<forall>m \<in> set ms. strip CHR ''/'' (fst m) \<noteq> []"
  shows "session_inv (init_App ms)"
proof -
  let ?h = "heap (init_App ms)" and ?r = "root_node (init_App ms)"
  from build_tree_inv[of ms] obtain n pf where inv: "paths_inv ?h n ?r pf"
    and at: "node_at ?h ?r = foldl ins_member root_only ms" by (auto simp: init_App_simps)
  have "[] \<notin> fst ` set (children (?h ?r))"
  proof
    assume "[] \<in> fst ` set (children (?h ?r))"
    then obtain c where m: "([], c) \<in> set (children (?h ?r))" by auto
    from paths_invD(5)[OF inv m] paths_invD(2)[OF inv] have "c < n" "pf c = [[]]" by auto
    then have "walk ?h ?r [[]] = Some c" using paths_inv_walk[OF inv, of "[[]]" c] by blast
    then have "map_option fst (node_at ?h ?r [[]]) \<noteq> None" by (simp add: node_at_def)
    then obtain m' where m': "m' \<in> set ms" "prefix [[]] (parts_of m')"
      unfolding at built_names by (auto split: if_splits)
    from m'(2) have "hd (parts_of m') = []" by (auto simp: prefix_def)
    moreover from assms m'(1) have "hd (parts_of m') \<noteq> []"
      unfolding parts_of_def by (intro hd_split_strip) simp
    ultimately show False by simp
  qed
  with init_App_tree_inv[of ms] show ?thesis by (simp add: session_inv_def)
qed

section \<open>\<open>mv\<close>\<close>

lemma set_delete: "set (AList.delete k xs) = {p \<in> set xs. fst p \<noteq> k}"
  by (auto simp: AList.delete_eq)

lemma children_detach:
  "children (detach h p k a) = (if a = p then AList.delete k (children (h p)) else children (h a))"
  by (simp add: detach_def)

lemma name_detach [simp]: "name (detach h p k a) = name (h a)"
  by (simp add: detach_def)

lemma detach_mem: "(k', c) \<in> set (children (detach h p k a)) \<Longrightarrow> (k', c) \<in> set (children (h a))"
  by (auto simp: children_detach set_delete split: if_splits)

lemma children_detach_subset: "set (children (detach h p k a)) \<subseteq> set (children (h a))"
  by (auto simp: children_detach set_delete)

lemma detach_keys_distinct: "keys_distinct h \<Longrightarrow> keys_distinct (detach h p k)"
  by (simp add: keys_distinct_def children_detach distinct_delete)

lemma detach_names_ok: "names_ok h \<Longrightarrow> names_ok (detach h p k)"
  unfolding names_ok_def by (auto dest: detach_mem)

lemma detach_one_parent: "one_parent h \<Longrightarrow> one_parent (detach h p k)"
  unfolding one_parent_def by (blast dest: detach_mem)

lemma detach_root_top: "root_top h r \<Longrightarrow> root_top (detach h p k) r"
  unfolding root_top_def by (blast dest: detach_mem)

lemma detach_tree_inv: "tree_inv h r \<Longrightarrow> tree_inv (detach h p k) r"
  by (simp add: tree_inv_def detach_keys_distinct detach_names_ok detach_one_parent detach_root_top)

lemma detach_no_parent:
  assumes "one_parent h" and "(k, c) \<in> set (children (h p))"
  shows "(k', c) \<notin> set (children (detach h p k a))"
proof
  assume m: "(k', c) \<in> set (children (detach h p k a))"
  then have "(k', c) \<in> set (children (h a))" by (rule detach_mem)
  with assms have "a = p" "k' = k" unfolding one_parent_def by blast+
  with m show False by (simp add: children_detach set_delete)
qed

lemma children_attach:
  "children (attach h c p nm a) = (if a = p then AList.update nm c (children (h p)) else children (h a))"
  by (simp add: attach_def add_child_def)

lemma name_attach: "name (attach h c p nm a) = (if a = c then nm else name (h a))"
  by (simp add: attach_def add_child_def)

lemma attach_mem:
  "nm \<notin> fst ` set (children (h p)) \<Longrightarrow>
   (k, x) \<in> set (children (attach h c p nm a)) \<longleftrightarrow>
     (k, x) \<in> set (children (h a)) \<or> (a = p \<and> k = nm \<and> x = c)"
  by (auto simp: children_attach update_fresh_key)

lemma attach_tree_inv:
  assumes inv: "tree_inv h r" and orphan: "\<And>a k. (k, c) \<notin> set (children (h a))"
    and c: "c \<noteq> r" and nm: "nm \<notin> fst ` set (children (h p))"
  shows "tree_inv (attach h c p nm) r"
proof -
  have mem: "\<And>k x a. (k, x) \<in> set (children (attach h c p nm a)) \<longleftrightarrow>
     (k, x) \<in> set (children (h a)) \<or> (a = p \<and> k = nm \<and> x = c)"
    using nm by (rule attach_mem)
  have "keys_distinct (attach h c p nm)"
    using inv nm by (auto simp: tree_inv_def keys_distinct_def children_attach update_fresh_key)
  moreover have "names_ok (attach h c p nm)"
    using inv orphan unfolding tree_inv_def names_ok_def
    by (auto simp: mem name_attach)
  moreover have "one_parent (attach h c p nm)"
    unfolding one_parent_def
  proof (intro allI impI)
    fix a b k k' x
    assume "(k, x) \<in> set (children (attach h c p nm a)) \<and> (k', x) \<in> set (children (attach h c p nm b))"
    then have "((k, x) \<in> set (children (h a)) \<or> (a = p \<and> k = nm \<and> x = c)) \<and>
               ((k', x) \<in> set (children (h b)) \<or> (b = p \<and> k' = nm \<and> x = c))"
      by (simp add: mem)
    moreover have "\<And>a b k k' x. (k, x) \<in> set (children (h a)) \<Longrightarrow> (k', x) \<in> set (children (h b)) \<Longrightarrow> a = b \<and> k = k'"
      using inv unfolding tree_inv_def one_parent_def by blast
    ultimately show "a = b \<and> k = k'" using orphan by blast
  qed
  moreover have "root_top (attach h c p nm) r"
    using inv c unfolding tree_inv_def root_top_def by (auto simp: mem)
  ultimately show ?thesis by (simp add: tree_inv_def)
qed

lemma mv_cmd_unfold:
  "mv_cmd s (a0 # a1 # rest) =
     (let src_parts = split CHR ''/'' (strip CHR ''/'' a0);
          dest_parts = split CHR ''/'' (strip CHR ''/'' a1);
          h = heap s; r = root_node s
      in case find_node_by_path h r src_parts of
           None \<Rightarrow> Inr (a0 @ '' not found.'', s)
         | Some sn \<Rightarrow>
            (case find_node_by_path h r dest_parts of
               Some _ \<Rightarrow> Inr (''Destination '' @ a1 @ '' already exists.'', s)
             | None \<Rightarrow>
                (case find_node_by_path h r (butlast src_parts) of
                   None \<Rightarrow> Inr (''Source parent not found: '' @ join ''/'' (butlast src_parts), s)
                 | Some sp \<Rightarrow>
                    if last src_parts \<in> fst ` set (children (h sp)) then
                      (case find_node_by_path (detach h sp (last src_parts)) r (butlast dest_parts) of
                         None \<Rightarrow> Inr (''Destination parent not found: '' @ join ''/'' (butlast dest_parts),
                                      s\<lparr>heap := detach h sp (last src_parts)\<rparr>)
                       | Some dp \<Rightarrow> Inr (a0 @ '' moved to '' @ a1 @ ''.'',
                                      s\<lparr>heap := attach (detach h sp (last src_parts)) sn dp (last dest_parts)\<rparr>))
                    else Inl (KeyError (last src_parts)))))"
  by (simp add: mv_cmd_def Let_def pop_def detach_def attach_def split: option.splits)

lemma find_root_only: "find_node_by_path h r [[]] = Some r"
  by simp

lemma src_child:
  assumes "strip CHR ''/'' a \<noteq> []"
    and "find_node_by_path h r (split CHR ''/'' (strip CHR ''/'' a)) = Some n"
    and "find_node_by_path h r (butlast (split CHR ''/'' (strip CHR ''/'' a))) = Some p"
  shows "(last (split CHR ''/'' (strip CHR ''/'' a)), n) \<in> set (children (h p))"
proof -
  have "last (split CHR ''/'' (strip CHR ''/'' a)) \<noteq> []"
    using assms(1) by (rule last_split_strip)
  from find_butlast_last[OF split_not_Nil this, of h r] assms(2,3)
  show ?thesis by (simp add: get_child_mem)
qed

lemma dest_fresh:
  assumes "keys_distinct h"
    and "find_node_by_path h r (split CHR ''/'' (strip CHR ''/'' a)) = None"
    and "find_node_by_path (detach h p k) r (butlast (split CHR ''/'' (strip CHR ''/'' a))) = Some dp"
  shows "last (split CHR ''/'' (strip CHR ''/'' a)) \<noteq> [] \<and>
         last (split CHR ''/'' (strip CHR ''/'' a)) \<notin> fst ` set (children (detach h p k dp))"
proof -
  have ne: "strip CHR ''/'' a \<noteq> []"
    using assms(2) by (auto simp: find_root_only)
  then have l: "last (split CHR ''/'' (strip CHR ''/'' a)) \<noteq> []" by (rule last_split_strip)
  have "find_node_by_path h r (butlast (split CHR ''/'' (strip CHR ''/'' a))) = Some dp"
    using assms(1) children_detach_subset assms(3) by (rule find_mono)
  with find_butlast_last[OF split_not_Nil l, of h r] assms(2)
  have "get_child h dp (last (split CHR ''/'' (strip CHR ''/'' a))) = None" by simp
  then have "last (split CHR ''/'' (strip CHR ''/'' a)) \<notin> fst ` set (children (h dp))"
    by (simp add: get_child_None)
  then have "last (split CHR ''/'' (strip CHR ''/'' a)) \<notin> fst ` set (children (detach h p k dp))"
    using children_detach_subset[of h p k dp] by auto
  with l show ?thesis by simp
qed

lemma detach_session_inv: "session_inv s \<Longrightarrow> session_inv (s\<lparr>heap := detach (heap s) p k\<rparr>)"
  using children_detach_subset[of "heap s" p k "root_node s"]
  by (auto simp: session_inv_def detach_tree_inv)

lemma mv_cmd_session_inv:
  assumes inv: "session_inv s" and mv: "mv_cmd s arg = Inr (msg, s')"
  shows "session_inv s' \<and> root_node s' = root_node s \<and> cur_dir s' = cur_dir s"
proof (cases arg)
  case Nil
  with mv inv show ?thesis by (simp add: mv_cmd_def)
next
  case (Cons a0 arg')
  show ?thesis
  proof (cases arg')
    case Nil
    with Cons mv inv show ?thesis by (simp add: mv_cmd_def)
  next
    case (Cons a1 rest)
    let ?h = "heap s" and ?r = "root_node s"
    let ?sps = "split CHR ''/'' (strip CHR ''/'' a0)" and ?dps = "split CHR ''/'' (strip CHR ''/'' a1)"
    note m = mv[unfolded \<open>arg = a0 # arg'\<close> Cons mv_cmd_unfold Let_def]
    from inv have ti: "tree_inv ?h ?r" and ne: "[] \<notin> fst ` set (children (?h ?r))"
      by (simp_all add: session_inv_def)
    show ?thesis
    proof (cases "s' = s \<or> (\<exists>p k. s' = s\<lparr>heap := detach ?h p k\<rparr>)")
      case True
      with inv show ?thesis by (auto simp: detach_session_inv)
    next
      case False
      with m obtain sn sp dp where
        sn: "find_node_by_path ?h ?r ?sps = Some sn" and
        dn: "find_node_by_path ?h ?r ?dps = None" and
        sp: "find_node_by_path ?h ?r (butlast ?sps) = Some sp" and
        key: "last ?sps \<in> fst ` set (children (?h sp))" and
        dp: "find_node_by_path (detach ?h sp (last ?sps)) ?r (butlast ?dps) = Some dp" and
        s': "s' = s\<lparr>heap := attach (detach ?h sp (last ?sps)) sn dp (last ?dps)\<rparr>"
        by (auto split: option.splits if_splits)
      have src: "strip CHR ''/'' a0 \<noteq> []"
      proof
        assume "strip CHR ''/'' a0 = []"
        with sp key ne show False by simp
      qed
      from src sn sp have ch: "(last ?sps, sn) \<in> set (children (?h sp))" by (rule src_child)
      from ti have kd: "keys_distinct ?h" and op: "one_parent ?h" and rt: "root_top ?h ?r"
        by (simp_all add: tree_inv_def)
      from rt ch have snr: "sn \<noteq> ?r" by (auto simp: root_top_def)
      from kd dn dp have fr: "last ?dps \<noteq> []" "last ?dps \<notin> fst ` set (children (detach ?h sp (last ?sps) dp))"
        using dest_fresh by blast+
      have "tree_inv (attach (detach ?h sp (last ?sps)) sn dp (last ?dps)) ?r"
        using detach_tree_inv[OF ti] detach_no_parent[OF op ch] snr fr(2)
        by (rule attach_tree_inv)
      moreover have "[] \<notin> fst ` set (children (attach (detach ?h sp (last ?sps)) sn dp (last ?dps) ?r))"
        using fr ne children_detach_subset[of ?h sp "last ?sps" ?r]
        by (auto simp: attach_mem[where h = "detach ?h sp (last ?sps)" and p = dp, OF fr(2)])
      ultimately show ?thesis by (simp add: s' session_inv_def)
    qed
  qed
qed

lemma reachable_detach: "reachable (detach h p k) r a \<Longrightarrow> reachable h r a"
  by (induction rule: reachable.induct) (auto intro: reachable.intros dest: detach_mem)




text \<open>
  Every command keeps the invariant of a session, and so does every sequence of commands.
\<close>

lemma cmd_exec_session_inv:
  assumes "session_inv s" and "cmd_exec depth s lines = Inr (out, s')"
  shows "session_inv s'"
proof (cases lines)
  case Nil
  with assms show ?thesis by (simp add: cmd_exec_def)
next
  case (Cons l args)
  show ?thesis
  proof (cases "strip_ws l = []")
    case True
    with assms Cons show ?thesis by (simp add: cmd_exec_def)
  next
    case False
    have same: "session_inv t" if "heap t = heap s" "root_node t = root_node s" for t
      using assms(1) that by (simp add: session_inv_def)
    have cdh: "heap (snd (cd_cmd s args)) = heap s \<and> root_node (snd (cd_cmd s args)) = root_node s"
      by (auto simp: cd_cmd_def Let_def split: list.splits option.splits)
    consider (ls) "strip_ws l = ''ls''" | (cd) "strip_ws l = ''cd''" | (mv) "strip_ws l = ''mv''"
      | (tree) "strip_ws l = ''tree''" | (exit) "strip_ws l = ''exit''"
      | (other) "strip_ws l \<notin> {''ls'', ''cd'', ''mv'', ''tree'', ''exit''}" by blast
    then show ?thesis
    proof cases
      case ls
      with assms Cons False show ?thesis by (simp add: cmd_exec_def map_of_commands)
    next
      case cd
      with assms(2) Cons False have "s' = snd (cd_cmd s args)"
        by (auto simp: cmd_exec_def map_of_commands split: prod.splits)
      with cdh same show ?thesis by simp
    next
      case mv
      show ?thesis
      proof (cases "mv_cmd s args")
        case (Inl e)
        with mv assms Cons False show ?thesis
          by (auto simp: cmd_exec_def map_of_commands split: if_splits)
      next
        case (Inr res)
        with mv assms(2) Cons False have "mv_cmd s args = Inr (out, s')"
          by (auto simp: cmd_exec_def map_of_commands split: prod.splits)
        with assms(1) show ?thesis using mv_cmd_session_inv by blast
      qed
    next
      case tree
      with assms Cons False show ?thesis
        by (auto simp: cmd_exec_def map_of_commands tree_cmd_def Let_def split: option.splits sum.splits if_splits)
    next
      case exit
      with assms(2) Cons show ?thesis by (simp add: cmd_exec_exit)
    next
      case other
      with assms Cons False show ?thesis by (simp add: cmd_exec_def map_of_commands)
    qed
  qed
qed

lemma run_script_session_inv:
  "session_inv s \<Longrightarrow> run_script depth s ls = Inr s' \<Longrightarrow> session_inv s'"
proof (induction ls arbitrary: s)
  case Nil
  then show ?case by simp
next
  case (Cons l ls)
  from Cons.prems(2) obtain out s1 where c: "cmd_exec depth s l = Inr (out, s1)"
    and r: "run_script depth s1 ls = Inr s'"
    by (auto split: sum.splits)
  from Cons.prems(1) c have "session_inv s1" by (rule cmd_exec_session_inv)
  then show ?case using r by (rule Cons.IH)
qed

text \<open>
  C9.  When the archive has a member for the root directory, the root has a child with the
  empty name; \<open>mv / x\<close> then resolves source and source parent to the root, pops the
  child with the empty name, renames the root and adds it to its own children.  The move
  reports success, the root is its own child \<open>x\<close>, every path \<open>x/x/...\<close> resolves, and
  \<open>tree\<close> ends with \<open>RecursionError\<close>.
\<close>

theorem mv_root_makes_cycle:
  "case mv_cmd (init_App cycle_archive) [''/'', ''x''] of
     Inl e \<Rightarrow> False
   | Inr (msg, s') \<Rightarrow>
       msg = ''/ moved to x.'' \<and>
       get_child (heap s') (root_node s') ''x'' = Some (root_node s') \<and>
       name (heap s' (root_node s')) = ''x'' \<and>
       find_node_by_path (heap s') (root_node s') [''x'', ''x'', ''a''] =
         find_node_by_path (heap s') (root_node s') [''a''] \<and>
       find_node_by_path (heap s') (root_node s') [''a''] = Some 2 \<and>
       map_sum id fst (tree_cmd 50 s' []) = Inl RecursionError"
  by code_simp

end
